theory Spec2Isabelle
  imports Main
begin

section \<open>Session store (store.js)\<close>

text \<open>
  The store keeps three SQLite tables. A table is modelled as the list of its rows in
  rowid order (AUTOINCREMENT ids grow with every insert, so an INSERT appends).
  Timestamps are integer milliseconds (\<open>Date.now()\<close>, INTEGER columns), modelled as
  \<open>int\<close>. The column \<open>channel_login\<close> was added by a migration and is nullable.
\<close>

datatype event_type = Join | Leave

record event =
  ev_username :: string
  ev_type :: event_type
  ev_ts :: int
  ev_channel_login :: "string option"

record session =
  username :: string
  joined_at :: int
  left_at :: "int option"
  duration_sec :: "int option"
  channel_login :: "string option"

record profile =
  p_username :: string
  p_user_id :: "string option"
  p_display_name :: "string option"
  p_broadcaster_type :: "string option"
  p_follower_count :: "int option"
  p_profile_image_url :: "string option"
  p_updated_at :: int

record store =
  events :: "event list"
  sessions :: "session list"
  users_table :: "string \<rightharpoonup> profile"

text \<open>\<open>INSERT INTO events (username, event_type, ts, channel_login) VALUES (?, ?, ?, ?)\<close>\<close>

definition insertEvent :: "string \<Rightarrow> event_type \<Rightarrow> int \<Rightarrow> string \<Rightarrow> store \<Rightarrow> store" where
  "insertEvent u k ts ch st =
     st\<lparr>events := events st @
        [\<lparr>ev_username = u, ev_type = k, ev_ts = ts, ev_channel_login = Some ch\<rparr>]\<rparr>"

text \<open>\<open>INSERT INTO sessions (username, joined_at, channel_login) VALUES (?, ?, ?)\<close>:
  the two remaining columns are NULL.\<close>

definition new_session :: "string \<Rightarrow> int \<Rightarrow> string \<Rightarrow> session" where
  "new_session u ts ch =
     \<lparr>username = u, joined_at = ts, left_at = None, duration_sec = None,
      channel_login = Some ch\<rparr>"

definition insertSession :: "string \<Rightarrow> int \<Rightarrow> string \<Rightarrow> store \<Rightarrow> store" where
  "insertSession u ts ch st = st\<lparr>sessions := sessions st @ [new_session u ts ch]\<rparr>"

text \<open>The WHERE clause shared by the SELECT of \<open>eventLeave\<close> and by \<open>closeSession\<close>:
  \<open>username = ? AND left_at IS NULL AND channel_login = ?\<close>.\<close>

definition open_for :: "string \<Rightarrow> string \<Rightarrow> session \<Rightarrow> bool" where
  "open_for u ch r \<longleftrightarrow> username r = u \<and> left_at r = None \<and> channel_login r = Some ch"

text \<open>
  \<open>... ORDER BY joined_at DESC LIMIT 1\<close>: the position of a matching row of greatest
  \<open>joined_at\<close>, if any row matches. SQL leaves the choice among rows of equal
  \<open>joined_at\<close> open; the model takes the one of lowest rowid.
\<close>

fun latest_open :: "string \<Rightarrow> string \<Rightarrow> session list \<Rightarrow> nat option" where
  "latest_open u ch [] = None"
| "latest_open u ch (r # rs) =
     (case latest_open u ch rs of
        None \<Rightarrow> (if open_for u ch r then Some 0 else None)
      | Some j \<Rightarrow>
          (if open_for u ch r \<and> joined_at (rs ! j) \<le> joined_at r then Some 0
           else Some (Suc j)))"

text \<open>\<open>UPDATE sessions SET left_at = ?, duration_sec = ? WHERE ... ORDER BY joined_at DESC LIMIT 1\<close>\<close>

definition close_row :: "int \<Rightarrow> int \<Rightarrow> session \<Rightarrow> session" where
  "close_row ts dur r = r\<lparr>left_at := Some ts, duration_sec := Some dur\<rparr>"

definition closeSession :: "int \<Rightarrow> int \<Rightarrow> string \<Rightarrow> string \<Rightarrow> store \<Rightarrow> store" where
  "closeSession ts dur u ch st =
     (case latest_open u ch (sessions st) of
        None \<Rightarrow> st
      | Some i \<Rightarrow> st\<lparr>sessions := (sessions st)[i := close_row ts dur (sessions st ! i)]\<rparr>)"

definition eventJoin :: "string \<Rightarrow> int \<Rightarrow> string \<Rightarrow> store \<Rightarrow> store" where
  "eventJoin u ts ch st = insertSession u ts ch (insertEvent u Join ts ch st)"

text \<open>\<open>Math.max(0, Math.floor((ts - row.joined_at) / 1000))\<close>; \<open>div\<close> on \<open>int\<close>
  rounds towards minus infinity, as \<open>Math.floor\<close> does. The numbers of JavaScript are
  doubles: on millisecond timestamps the difference is exact and the floor of the
  rounded quotient is the floor of the exact one.\<close>

definition session_duration :: "int \<Rightarrow> int \<Rightarrow> int" where
  "session_duration ts joined = max 0 ((ts - joined) div 1000)"

definition eventLeave :: "string \<Rightarrow> int \<Rightarrow> string \<Rightarrow> store \<Rightarrow> store" where
  "eventLeave u ts ch st =
     (let st1 = insertEvent u Leave ts ch st in
      case latest_open u ch (sessions st1) of
        None \<Rightarrow> st1
      | Some i \<Rightarrow>
          closeSession ts (session_duration ts (joined_at (sessions st1 ! i))) u ch st1)"

section \<open>Strings, sets and errors of the JavaScript runtime\<close>

text \<open>
  A JavaScript string is modelled as a \<open>string\<close>, a value that may be \<open>null\<close> or
  \<open>undefined\<close> as a \<open>string option\<close>. \<open>toLowerCase\<close> and \<open>trim\<close> are modelled on
  ASCII (the alphabet of Twitch logins): \<open>A\<close> to \<open>Z\<close> are folded, and the white space
  removed is tab, line feed, vertical tab, form feed, carriage return and space.
\<close>

definition lower_char :: "char \<Rightarrow> char" where
  "lower_char c =
     (let n = (of_char c :: nat) in if 65 \<le> n \<and> n \<le> 90 then char_of (n + 32) else c)"

definition toLowerCase :: "string \<Rightarrow> string" where
  "toLowerCase s = map lower_char s"

definition is_space :: "char \<Rightarrow> bool" where
  "is_space c \<longleftrightarrow> (let n = (of_char c :: nat) in (9 \<le> n \<and> n \<le> 13) \<or> n = 32)"

definition trim :: "string \<Rightarrow> string" where
  "trim s = rev (dropWhile is_space (rev (dropWhile is_space s)))"

text \<open>Truthiness of a value that is a string, \<open>null\<close> or \<open>undefined\<close>: only a
  non-empty string is truthy. \<open>x || ''\<close> is \<open>or_empty x\<close>.\<close>

definition truthy :: "string option \<Rightarrow> bool" where
  "truthy v \<longleftrightarrow> (case v of None \<Rightarrow> False | Some s \<Rightarrow> s \<noteq> [])"

definition or_empty :: "string option \<Rightarrow> string" where
  "or_empty v = (case v of None \<Rightarrow> [] | Some s \<Rightarrow> s)"

text \<open>A JavaScript \<open>Set\<close> of strings is the list of its members in insertion order
  (the order in which \<open>[...set]\<close> iterates); \<open>add\<close> appends a value that is not yet a
  member and \<open>delete\<close> removes it.\<close>

definition set_add :: "string \<Rightarrow> string list \<Rightarrow> string list" where
  "set_add x xs = (if x \<in> set xs then xs else xs @ [x])"

definition set_delete :: "string \<Rightarrow> string list \<Rightarrow> string list" where
  "set_delete x xs = filter (\<lambda>y. y \<noteq> x) xs"

text \<open>\<open>getOpenUsers\<close>: \<open>SELECT username FROM sessions WHERE left_at IS NULL AND channel_login = ?\<close>\<close>

definition open_users :: "string \<Rightarrow> session list \<Rightarrow> string list" where
  "open_users ch s = map username (filter (\<lambda>r. left_at r = None \<and> channel_login r = Some ch) s)"

text \<open>\<open>getOpenSet\<close> of store.js: \<open>new Set(rows.map(r => r.username.toLowerCase()))\<close>\<close>

definition getOpenSet :: "string \<Rightarrow> store \<Rightarrow> string list" where
  "getOpenSet ch st = foldl (\<lambda>s x. set_add x s) [] (map toLowerCase (open_users ch (sessions st)))"

text \<open>
  A thrown value, as far as the code looks at it: \<open>err?.response?.status\<close>,
  \<open>err?.response?.data\<close>, \<open>err?.message\<close> and \<open>String(err)\<close>.
\<close>

record js_error =
  err_status :: "nat option"
  err_data :: "string option"
  err_message :: "string option"
  err_string :: string

section \<open>The chatters endpoint (twitch.js)\<close>

text \<open>
  One page of \<open>GET /chat/chatters\<close>: the \<open>user_login\<close> field of every row of
  \<open>res.data.data\<close> (no rows when the field is absent) and \<open>res.data.pagination.cursor\<close>.
\<close>

record page =
  page_data :: "string option list"
  page_cursor :: "string option"

record chatters_request =
  rq_client_id :: "string option"
  rq_token :: "string option"
  rq_broadcaster_id :: "string option"
  rq_moderator_id :: "string option"
  rq_first :: nat
  rq_after :: "string option"

text \<open>The provider: the answer to the \<open>i\<close>-th request of a call, an error when
  \<open>twitch.get\<close> throws.\<close>

type_synonym chatters_http = "nat \<Rightarrow> chatters_request \<Rightarrow> js_error + page"

text \<open>\<open>(row.user_login || '').toLowerCase().trim()\<close>\<close>

definition norm_login :: "string option \<Rightarrow> string" where
  "norm_login v = trim (toLowerCase (or_empty v))"

text \<open>The inner loop: \<open>for (const row of data) { ...; if (login) users.add(login); }\<close>\<close>

fun add_logins :: "string list \<Rightarrow> string option list \<Rightarrow> string list" where
  "add_logins users [] = users"
| "add_logins users (row # rows) =
     (let login = norm_login row in
      add_logins (if login \<noteq> [] then set_add login users else users) rows)"

text \<open>\<open>after ? { ...params, after } : params\<close>\<close>

definition next_request :: "chatters_request \<Rightarrow> string option \<Rightarrow> chatters_request" where
  "next_request params after = (if truthy after then params\<lparr>rq_after := after\<rparr> else params)"

text \<open>
  The page loop \<open>for (let i = 0; i < 20; i++)\<close>, with the variables \<open>users\<close> and
  \<open>after\<close> as arguments. The result is the value returned or the error thrown, and
  the list of the requests sent, oldest first.
\<close>

function fetchChatters_loop ::
  "chatters_http \<Rightarrow> chatters_request \<Rightarrow> nat \<Rightarrow> string list \<Rightarrow> string option \<Rightarrow>
   chatters_request list \<Rightarrow> (js_error + string list) \<times> chatters_request list" where
  "fetchChatters_loop http params i users after sent =
     (if i < 20 then
        (let rq = next_request params after in
         case http i rq of
           Inl err \<Rightarrow> (Inl err, sent @ [rq])
         | Inr res \<Rightarrow>
             (let users' = add_logins users (page_data res);
                  after' = page_cursor res in
              if \<not> truthy after' then (Inr users', sent @ [rq])
              else fetchChatters_loop http params (i + 1) users' after' (sent @ [rq])))
      else (Inr users, sent))"
  by pat_completeness auto

termination
  by (relation "measure (\<lambda>(http, params, i, users, after, sent). 20 - i)") auto

declare fetchChatters_loop.simps [simp del]

definition fetchChatters ::
  "chatters_http \<Rightarrow> string option \<Rightarrow> string option \<Rightarrow> string option \<Rightarrow> string option \<Rightarrow>
   (js_error + string list) \<times> chatters_request list" where
  "fetchChatters http clientId userAccessToken broadcasterId moderatorId =
     fetchChatters_loop http
       \<lparr>rq_client_id = clientId, rq_token = userAccessToken,
        rq_broadcaster_id = broadcasterId, rq_moderator_id = moderatorId,
        rq_first = 1000, rq_after = None\<rparr>
       0 [] None []"

section \<open>The users and followers endpoints (twitch.js)\<close>

text \<open>A row of \<open>GET /users\<close>, with the fields the enricher reads.\<close>

record twitch_user =
  tu_id :: "string option"
  tu_login :: "string option"
  tu_display_name :: "string option"
  tu_broadcaster_type :: "string option"
  tu_profile_image_url :: "string option"

text \<open>The provider's answer to the \<open>k\<close>-th request of one \<open>fetchUsersByLogins\<close> call,
  given the logins of its query string; \<open>res.data?.data || []\<close> is the list returned.\<close>

type_synonym users_http = "nat \<Rightarrow> string list \<Rightarrow> js_error + twitch_user list"

text \<open>\<open>for (let i = 0; i < logins.length; i += 100) chunks.push(logins.slice(i, i + 100))\<close>\<close>

function chunks_from :: "nat \<Rightarrow> string list \<Rightarrow> string list list" where
  "chunks_from i logins =
     (if i < length logins then take 100 (drop i logins) # chunks_from (i + 100) logins else [])"
  by pat_completeness auto

termination
  by (relation "measure (\<lambda>(i, logins). length logins - i)") auto

declare chunks_from.simps [simp del]

text \<open>\<open>for (const chunk of chunks) { ...; out.push(...) }\<close>: the result or the error
  thrown, and the login lists of the requests sent.\<close>

fun fetch_chunks ::
  "users_http \<Rightarrow> nat \<Rightarrow> string list list \<Rightarrow> twitch_user list \<Rightarrow> string list list \<Rightarrow>
   (js_error + twitch_user list) \<times> string list list" where
  "fetch_chunks http k [] out sent = (Inr out, sent)"
| "fetch_chunks http k (chunk # chunks) out sent =
     (case http k chunk of
        Inl err \<Rightarrow> (Inl err, sent @ [chunk])
      | Inr data \<Rightarrow> fetch_chunks http (k + 1) chunks (out @ data) (sent @ [chunk]))"

definition fetchUsersByLogins ::
  "users_http \<Rightarrow> string list \<Rightarrow> (js_error + twitch_user list) \<times> string list list" where
  "fetchUsersByLogins http logins =
     (if logins = [] then (Inr [], [])
      else fetch_chunks http 0 (chunks_from 0 logins) [] [])"

section \<open>The store as the engine sees it\<close>

text \<open>
  The engine calls the store through the object that \<open>createStore\<close> returns. A call
  may throw (a failed SQLite statement): an operation returns the error thrown, if any,
  and the store as the call left it. \<open>createStore\<close> is the store of store.js with
  statements that succeed.
\<close>

record 'st store_api =
  api_eventJoin :: "string \<Rightarrow> int \<Rightarrow> string \<Rightarrow> 'st \<Rightarrow> js_error option \<times> 'st"
  api_eventLeave :: "string \<Rightarrow> int \<Rightarrow> string \<Rightarrow> 'st \<Rightarrow> js_error option \<times> 'st"
  api_saveUserProfile :: "profile \<Rightarrow> 'st \<Rightarrow> js_error option \<times> 'st"

text \<open>\<open>INSERT INTO users ... ON CONFLICT(username) DO UPDATE SET ...\<close>: every column
  of the row of that username is replaced.\<close>

definition saveUserProfile :: "profile \<Rightarrow> store \<Rightarrow> store" where
  "saveUserProfile p st = st\<lparr>users_table := (users_table st)(p_username p \<mapsto> p)\<rparr>"

definition createStore :: "store store_api" where
  "createStore =
     \<lparr>api_eventJoin = (\<lambda>u ts ch st. (None, eventJoin u ts ch st)),
      api_eventLeave = (\<lambda>u ts ch st. (None, eventLeave u ts ch st)),
      api_saveUserProfile = (\<lambda>p st. (None, saveUserProfile p st))\<rparr>"

section \<open>The enrichment queue (enrich.js)\<close>

record enricher =
  queue :: "string list"
  running :: bool

text \<open>\<open>for (const u of usernames) if (u) queue.add(String(u).toLowerCase())\<close>\<close>

fun enqueue_names :: "string option list \<Rightarrow> string list \<Rightarrow> string list" where
  "enqueue_names [] q = q"
| "enqueue_names (u # us) q =
     enqueue_names us (if truthy u then set_add (toLowerCase (or_empty u)) q else q)"

definition enqueue :: "string option list \<Rightarrow> enricher \<Rightarrow> enricher" where
  "enqueue usernames e = e\<lparr>queue := enqueue_names usernames (queue e)\<rparr>"

text \<open>
  While a drain waits for an answer the event loop runs other tasks. Two of them touch
  the enricher: the poll tick calls \<open>enqueue\<close>, and the 4 s timer calls \<open>drain\<close> again
  (through \<open>enricher.tick\<close>).
\<close>

datatype task = Enqueue "string option list" | Enter_drain

text \<open>
  What one drain meets outside itself: the two endpoints, the clock, and the tasks
  that run while it waits for the profile lookup and for the \<open>i\<close>-th follower lookup.
\<close>

record drain_env =
  users_http :: users_http
  followers_http :: "nat \<Rightarrow> string option \<Rightarrow> js_error + int option"
  save_clock :: "nat \<Rightarrow> int"
  during_users :: "task list"
  during_followers :: "nat \<Rightarrow> task list"

text \<open>\<open>x || null\<close>\<close>

definition or_null :: "string option \<Rightarrow> string option" where
  "or_null v = (if truthy v then v else None)"

text \<open>The \<open>try { followerCount = await fetchFollowerCount(...) } catch { followerCount = null }\<close>
  around the \<open>i\<close>-th follower lookup; the endpoint returns \<open>res.data?.total ?? null\<close>.\<close>

definition follower_count_of :: "drain_env \<Rightarrow> nat \<Rightarrow> twitch_user \<Rightarrow> int option" where
  "follower_count_of env i u =
     (case followers_http env i (tu_id u) of Inl err \<Rightarrow> None | Inr count \<Rightarrow> count)"

text \<open>The object passed to \<open>store.saveUserProfile\<close>.\<close>

definition make_profile :: "twitch_user \<Rightarrow> int option \<Rightarrow> int \<Rightarrow> profile" where
  "make_profile u followerCount now =
     \<lparr>p_username = toLowerCase (or_empty (tu_login u)),
      p_user_id = or_null (tu_id u),
      p_display_name = or_null (tu_display_name u),
      p_broadcaster_type = or_null (tu_broadcaster_type u),
      p_follower_count = followerCount,
      p_profile_image_url = or_null (tu_profile_image_url u),
      p_updated_at = now\<rparr>"

text \<open>The synchronous start of a drain that runs: the flag is set, the batch is taken
  and deleted from the queue.\<close>

definition drain_begin :: "enricher \<Rightarrow> enricher \<times> string list" where
  "drain_begin e =
     (let e1 = e\<lparr>running := True\<rparr>;
          batch = take 50 (queue e1)
      in (e1\<lparr>queue := fold set_delete batch (queue e1)\<rparr>, batch))"

text \<open>
  A call of \<open>drain\<close> made by another task while a drain waits runs, before it waits
  itself, the first lines of \<open>drain\<close>: the guard and, past the guard, the flag, the batch
  and the deletions. What a second drain would do after that is not followed further.
\<close>

definition drain_enter :: "enricher \<Rightarrow> enricher" where
  "drain_enter e = (if running e \<or> queue e = [] then e else fst (drain_begin e))"

fun run_tasks :: "task list \<Rightarrow> enricher \<Rightarrow> enricher" where
  "run_tasks [] e = e"
| "run_tasks (Enqueue usernames # ts) e = run_tasks ts (enqueue usernames e)"
| "run_tasks (Enter_drain # ts) e = run_tasks ts (drain_enter e)"

text \<open>\<open>for (const u of users) { ... }\<close>, from the \<open>i\<close>-th resolved user on: the error
  thrown (by the store), the queue and the store.\<close>

fun drain_users ::
  "'st store_api \<Rightarrow> drain_env \<Rightarrow> nat \<Rightarrow> twitch_user list \<Rightarrow> enricher \<Rightarrow> 'st \<Rightarrow>
   js_error option \<times> enricher \<times> 'st" where
  "drain_users api env i [] e st = (None, e, st)"
| "drain_users api env i (u # us) e st =
     (let followerCount = follower_count_of env i u;
          e1 = run_tasks (during_followers env i) e;
          (err, st1) = api_saveUserProfile api (make_profile u followerCount (save_clock env i)) st
      in case err of
           Some x \<Rightarrow> (Some x, e1, st1)
         | None \<Rightarrow> drain_users api env (i + 1) us e1 st1)"

text \<open>
  \<open>drain\<close>: the error that escapes (if any), the enricher and the store afterwards, and
  the login lists of the profile lookups sent. The \<open>finally\<close> block clears the flag on
  both ways out of the \<open>try\<close>.
\<close>

definition drain ::
  "'st store_api \<Rightarrow> drain_env \<Rightarrow> enricher \<Rightarrow> 'st \<Rightarrow>
   js_error option \<times> enricher \<times> 'st \<times> string list list" where
  "drain api env e st =
     (if running e \<or> queue e = [] then (None, e, st, [])
      else
        (let (e1, batch) = drain_begin e;
             (res, sent) = fetchUsersByLogins (users_http env) batch;
             e2 = run_tasks (during_users env) e1
         in case res of
              Inl err \<Rightarrow> (Some err, e2\<lparr>running := False\<rparr>, st, sent)
            | Inr users \<Rightarrow>
                (let (err, e3, st1) = drain_users api env 0 users e2 st
                 in (err, e3\<lparr>running := False\<rparr>, st1, sent))))"

section \<open>The reconciliation tick (index.js)\<close>

text \<open>The per-session auth object of \<open>newSessionAuth\<close>; \<open>current\<close> is the presence
  set.\<close>

record tenant =
  token :: "string option"
  refreshToken :: "string option"
  tokenExpiresAt :: "int option"
  moderatorId :: "string option"
  meLogin :: "string option"
  tokenScopes :: "string list"
  broadcasterId :: "string option"
  broadcasterLogin :: "string option"
  current :: "string list"
  lastPollAt :: "int option"
  lastError :: "string option"

text \<open>The entry that \<open>persistAuth\<close> writes for a session.\<close>

record saved_auth =
  sv_token :: "string option"
  sv_refreshToken :: "string option"
  sv_tokenExpiresAt :: "int option"
  sv_moderatorId :: "string option"
  sv_meLogin :: "string option"
  sv_tokenScopes :: "string list"
  sv_broadcasterId :: "string option"
  sv_broadcasterLogin :: "string option"

definition credentials :: "tenant \<Rightarrow> saved_auth" where
  "credentials a =
     \<lparr>sv_token = token a, sv_refreshToken = refreshToken a,
      sv_tokenExpiresAt = tokenExpiresAt a, sv_moderatorId = moderatorId a,
      sv_meLogin = meLogin a, sv_tokenScopes = tokenScopes a,
      sv_broadcasterId = broadcasterId a, sv_broadcasterLogin = broadcasterLogin a\<rparr>"

text \<open>The body of a token response: \<open>access_token\<close>, \<open>refresh_token\<close>, \<open>expires_in\<close>
  (seconds) and \<open>scope\<close> (an array, truthy also when empty), each possibly absent.\<close>

record token_response =
  access_token :: "string option"
  refresh_token :: "string option"
  expires_in :: "int option"
  scope :: "string list option"

text \<open>
  Everything a tick can change besides the tenant it ticks: the store, the enricher and
  the token it uses (\<open>cfgForEnrich.userAccessToken\<close>), all three shared by the
  tenants, the entry of the ticking tenant in the credential file (the entry written
  last; absent before the first \<open>persistAuth\<close>), and the requests sent so far: the
  refresh token of every refresh exchange and the chatters requests.
\<close>

record 'st world =
  db :: 'st
  enrich :: enricher
  enrichToken :: "string option"
  authFile :: "saved_auth option"
  refreshSent :: "string option list"
  chattersSent :: "chatters_request list"

text \<open>
  What a tick meets outside: the static configuration, the clock at its four reads
  (\<open>const ts = Date.now()\<close>, the comparison in \<open>ensureFreshToken\<close>, and after the
  refresh in \<open>ensureFreshToken\<close> and in the \<open>catch\<close> block), the identity provider's
  answer to the \<open>k\<close>-th refresh exchange, the error (if any) that
  \<open>fs.writeFileSync\<close> throws when the credentials are written after the \<open>k\<close>-th
  exchange, and the chatters endpoint.
\<close>

record tick_env =
  cfg_clientId :: "string option"
  cfg_clientSecret :: "string option"
  now_tick :: int
  now_check :: int
  now_refreshed :: int
  now_recovered :: int
  refresh_http :: "nat \<Rightarrow> string option \<Rightarrow> js_error + token_response"
  auth_write :: "nat \<Rightarrow> saved_auth \<Rightarrow> js_error option"
  chatters_http :: chatters_http

text \<open>Truthiness of a number or \<open>null\<close>: \<open>null\<close> and 0 are falsy.\<close>

definition truthy_num :: "int option \<Rightarrow> bool" where
  "truthy_num v \<longleftrightarrow> (case v of None \<Rightarrow> False | Some n \<Rightarrow> n \<noteq> 0)"

text \<open>
  \<open>persistAuth\<close> after the \<open>k\<close>-th exchange, for the entry of the tenant:
  \<open>authStore.save\<close> is \<open>fs.writeFileSync\<close> with no \<open>try\<close> around it, so the error
  of a write that fails is thrown to the caller. The entry in the file is replaced by
  a write that succeeds; one that fails is taken to leave the entry as it was.
\<close>

definition persistAuth ::
  "tick_env \<Rightarrow> nat \<Rightarrow> tenant \<Rightarrow> 'st world \<Rightarrow> js_error option \<times> 'st world" where
  "persistAuth env k a w =
     (case auth_write env k (credentials a) of
        Some err \<Rightarrow> (Some err, w)
      | None \<Rightarrow> (None, w\<lparr>authFile := Some (credentials a)\<rparr>))"

text \<open>
  The refresh exchange, the assignments that follow it and the call of \<open>persistAuth\<close>.
  The statements stand twice in index.js, word for word: in \<open>ensureFreshToken\<close> and in
  the \<open>catch\<close> block of \<open>tickOne\<close>. \<open>now\<close> is the clock read after the exchange. The
  result is the error thrown, if any: by \<open>refreshAccessToken\<close>, with the tenant as it
  was, or by \<open>persistAuth\<close>, with the four fields already assigned.
\<close>

definition refresh_exchange ::
  "tick_env \<Rightarrow> int \<Rightarrow> tenant \<Rightarrow> 'st world \<Rightarrow> js_error option \<times> tenant \<times> 'st world" where
  "refresh_exchange env now a w =
     (let w1 = w\<lparr>refreshSent := refreshSent w @ [refreshToken a]\<rparr> in
      case refresh_http env (length (refreshSent w)) (refreshToken a) of
        Inl err \<Rightarrow> (Some err, a, w1)
      | Inr refreshed \<Rightarrow>
          (let a1 = a\<lparr>token := access_token refreshed,
                      refreshToken :=
                        (if truthy (refresh_token refreshed) then refresh_token refreshed
                         else refreshToken a),
                      tokenScopes :=
                        (case scope refreshed of Some sc \<Rightarrow> sc | None \<Rightarrow> tokenScopes a),
                      tokenExpiresAt :=
                        Some (now + (case expires_in refreshed of Some n \<Rightarrow> n | None \<Rightarrow> 0) * 1000)\<rparr>
           in case persistAuth env (length (refreshSent w)) a1 w1 of
                (err, w2) \<Rightarrow> (err, a1, w2)))"

definition ensureFreshToken ::
  "tick_env \<Rightarrow> tenant \<Rightarrow> 'st world \<Rightarrow> js_error option \<times> tenant \<times> 'st world" where
  "ensureFreshToken env a w =
     (if \<not> truthy (refreshToken a) \<or> \<not> truthy_num (tokenExpiresAt a) then (None, a, w)
      else if now_check env < (case tokenExpiresAt a of Some t \<Rightarrow> t | None \<Rightarrow> 0) - 60000
      then (None, a, w)
      else refresh_exchange env (now_refreshed env) a w)"

text \<open>\<open>for (const u of joined) store.eventJoin(u, ts, a.broadcasterLogin)\<close> and its twin
  for \<open>left\<close>: the loop ends at the first call that throws.\<close>

fun for_each ::
  "(string \<Rightarrow> int \<Rightarrow> string \<Rightarrow> 'st \<Rightarrow> js_error option \<times> 'st) \<Rightarrow>
   string list \<Rightarrow> int \<Rightarrow> string \<Rightarrow> 'st \<Rightarrow> js_error option \<times> 'st" where
  "for_each f [] ts ch st = (None, st)"
| "for_each f (u # us) ts ch st =
     (case f u ts ch st of
        (Some err, st1) \<Rightarrow> (Some err, st1)
      | (None, st1) \<Rightarrow> for_each f us ts ch st1)"

text \<open>The \<open>try\<close> block of \<open>tickOne\<close>: the error thrown inside it, if any, with the
  tenant and the world as they are at that point.\<close>

definition tick_try ::
  "'st store_api \<Rightarrow> tick_env \<Rightarrow> int \<Rightarrow> tenant \<Rightarrow> 'st world \<Rightarrow>
   js_error option \<times> tenant \<times> 'st world" where
  "tick_try api env ts a w =
     (case ensureFreshToken env a w of
        (Some err, a1, w1) \<Rightarrow> (Some err, a1, w1)
      | (None, a1, w1) \<Rightarrow>
          (let (res, sent) =
                 fetchChatters (chatters_http env) (cfg_clientId env) (token a1)
                   (broadcasterId a1) (moderatorId a1);
               w2 = w1\<lparr>chattersSent := chattersSent w1 @ sent\<rparr>
           in case res of
                Inl err \<Rightarrow> (Some err, a1, w2)
              | Inr next \<Rightarrow>
                  (let joined = filter (\<lambda>u. u \<notin> set (current a1)) next;
                       left = filter (\<lambda>u. u \<notin> set next) (current a1);
                       ch = or_empty (broadcasterLogin a1)
                   in case for_each (api_eventJoin api) joined ts ch (db w2) of
                        (Some err, st1) \<Rightarrow> (Some err, a1, w2\<lparr>db := st1\<rparr>)
                      | (None, st1) \<Rightarrow>
                          (case for_each (api_eventLeave api) left ts ch st1 of
                             (Some err, st2) \<Rightarrow> (Some err, a1, w2\<lparr>db := st2\<rparr>)
                           | (None, st2) \<Rightarrow>
                               (let w3 = w2\<lparr>db := st2\<rparr>;
                                    w4 = (if joined \<noteq> [] \<or> left \<noteq> []
                                          then w3\<lparr>enrichToken := token a1,
                                                  enrich := enqueue (map Some joined) (enrich w3)\<rparr>
                                          else w3)
                                in (None, a1\<lparr>current := next, lastError := None\<rparr>, w4))))))"

text \<open>\<open>err?.response?.data || err?.message || String(err)\<close>\<close>

definition error_text :: "js_error \<Rightarrow> string" where
  "error_text err =
     (if truthy (err_data err) then or_empty (err_data err)
      else if truthy (err_message err) then or_empty (err_message err)
      else err_string err)"

text \<open>The \<open>catch\<close> block of \<open>tickOne\<close>.\<close>

definition tick_catch :: "tick_env \<Rightarrow> js_error \<Rightarrow> tenant \<Rightarrow> 'st world \<Rightarrow> tenant \<times> 'st world" where
  "tick_catch env err a w =
     (if err_status err = Some 401 \<and> truthy (refreshToken a) then
        (case refresh_exchange env (now_recovered env) a w of
           (None, a1, w1) \<Rightarrow> (a1, w1)
         | (Some e2, a1, w1) \<Rightarrow> (a1\<lparr>lastError := Some (error_text e2)\<rparr>, w1))
      else (a\<lparr>lastError := Some (error_text err)\<rparr>, w))"

text \<open>The guard of the first line of \<open>tickOne\<close>, negated.\<close>

definition tick_ready :: "tick_env \<Rightarrow> tenant \<Rightarrow> bool" where
  "tick_ready env a \<longleftrightarrow>
     truthy (cfg_clientId env) \<and> truthy (token a) \<and> truthy (broadcasterId a)
     \<and> truthy (moderatorId a) \<and> truthy (broadcasterLogin a)"

text \<open>\<open>tickOne\<close> returns the tenant and the world; its \<open>catch\<close> block throws nothing,
  so no error is part of the result.\<close>

definition tickOne :: "'st store_api \<Rightarrow> tick_env \<Rightarrow> tenant \<Rightarrow> 'st world \<Rightarrow> tenant \<times> 'st world" where
  "tickOne api env a w =
     (if \<not> tick_ready env a then (a, w)
      else
        (let ts = now_tick env;
             a0 = a\<lparr>lastPollAt := Some ts\<rparr>
         in case tick_try api env ts a0 w of
              (None, a1, w1) \<Rightarrow> (a1, w1)
            | (Some err, a1, w1) \<Rightarrow> tick_catch env err a1 w1))"

text \<open>
  \<open>tickAll\<close>: \<open>for (const a of sessions.values()) await tickOne(a)\<close>. The tenants of
  the registry are ticked one after the other, in its order, against the one store;
  \<open>envs i\<close> is what the tick of the \<open>i\<close>-th tenant meets.
\<close>

fun tickAll_from ::
  "'st store_api \<Rightarrow> (nat \<Rightarrow> tick_env) \<Rightarrow> nat \<Rightarrow> tenant list \<Rightarrow> 'st world \<Rightarrow>
   tenant list \<times> 'st world" where
  "tickAll_from api envs i [] w = ([], w)"
| "tickAll_from api envs i (a # rest) w =
     (case tickOne api (envs i) a w of
        (a1, w1) \<Rightarrow>
          (case tickAll_from api envs (i + 1) rest w1 of
             (rest1, w2) \<Rightarrow> (a1 # rest1, w2)))"

definition tickAll ::
  "'st store_api \<Rightarrow> (nat \<Rightarrow> tick_env) \<Rightarrow> tenant list \<Rightarrow> 'st world \<Rightarrow> tenant list \<times> 'st world" where
  "tickAll api envs tenants w = tickAll_from api envs 0 tenants w"

section \<open>Notions used in the statements\<close>

text \<open>The profiles that a drain passes to \<open>saveUserProfile\<close> for the resolved users,
  from the \<open>i\<close>-th on, when no save throws.\<close>

fun saved_profiles :: "drain_env \<Rightarrow> nat \<Rightarrow> twitch_user list \<Rightarrow> profile list" where
  "saved_profiles env i [] = []"
| "saved_profiles env i (u # us) =
     make_profile u (follower_count_of env i u) (save_clock env i) # saved_profiles env (i + 1) us"

text \<open>The names that a list of tasks enqueues, in order.\<close>

fun enqueued :: "task list \<Rightarrow> string option list" where
  "enqueued [] = []"
| "enqueued (Enqueue usernames # ts) = usernames @ enqueued ts"
| "enqueued (Enter_drain # ts) = enqueued ts"

text \<open>The names enqueued by other tasks during a drain that made \<open>n\<close> follower lookups.\<close>

definition arrivals :: "drain_env \<Rightarrow> nat \<Rightarrow> string option list" where
  "arrivals env n =
     enqueued (during_users env) @ concat (map (\<lambda>i. enqueued (during_followers env i)) [0..<n])"

text \<open>The non-empty normalised logins of one page.\<close>

definition page_logins :: "page \<Rightarrow> string set" where
  "page_logins pg = {u. u \<noteq> [] \<and> (\<exists>row \<in> set (page_data pg). u = norm_login row)}"

text \<open>What \<open>eventLeave\<close> does to the sessions table.\<close>

definition leave_sessions :: "string \<Rightarrow> int \<Rightarrow> string \<Rightarrow> session list \<Rightarrow> session list" where
  "leave_sessions u ts ch s =
     (case latest_open u ch s of
        None \<Rightarrow> s
      | Some i \<Rightarrow> s[i := close_row ts (session_duration ts (joined_at (s ! i))) (s ! i)])"

text \<open>The store after the two loops of a tick.\<close>

definition apply_diff :: "string list \<Rightarrow> string list \<Rightarrow> int \<Rightarrow> string \<Rightarrow> store \<Rightarrow> store" where
  "apply_diff joined left ts ch st =
     foldl (\<lambda>s u. eventLeave u ts ch s) (foldl (\<lambda>s u. eventJoin u ts ch s) st joined) left"

text \<open>A tick is successful when the tenant is ready and the \<open>try\<close> block throws nothing.\<close>

definition tick_succeeds :: "tick_env \<Rightarrow> tenant \<Rightarrow> store world \<Rightarrow> bool" where
  "tick_succeeds env a w \<longleftrightarrow>
     tick_ready env a
     \<and> fst (tick_try createStore env (now_tick env) (a\<lparr>lastPollAt := Some (now_tick env)\<rparr>) w) = None"

text \<open>The rounds of the scheduler over the SQLite store, one \<open>tickAll\<close> per round, each
  started after the one before it has ended.\<close>

fun run_rounds ::
  "(nat \<Rightarrow> tick_env) list \<Rightarrow> tenant list \<Rightarrow> store world \<Rightarrow> tenant list \<times> store world" where
  "run_rounds [] tenants w = (tenants, w)"
| "run_rounds (envs # rounds) tenants w =
     (case tickAll createStore envs tenants w of (tenants1, w1) \<Rightarrow> run_rounds rounds tenants1 w1)"

text \<open>The world in which the \<open>k\<close>-th tenant of a round is ticked: the one left by the
  ticks of the \<open>k\<close> tenants before it.\<close>

definition before_tick ::
  "(nat \<Rightarrow> tick_env) \<Rightarrow> nat \<Rightarrow> tenant list \<Rightarrow> store world \<Rightarrow> store world" where
  "before_tick envs k tenants w = snd (tickAll createStore envs (take k tenants) w)"

text \<open>The tick of the \<open>k\<close>-th tenant is successful in every round.\<close>

fun succeeds_in_rounds ::
  "nat \<Rightarrow> (nat \<Rightarrow> tick_env) list \<Rightarrow> tenant list \<Rightarrow> store world \<Rightarrow> bool" where
  "succeeds_in_rounds k [] tenants w = True"
| "succeeds_in_rounds k (envs # rounds) tenants w =
     (tick_succeeds (envs k) (tenants ! k) (before_tick envs k tenants w)
      \<and> (case tickAll createStore envs tenants w of
           (tenants1, w1) \<Rightarrow> succeeds_in_rounds k rounds tenants1 w1))"

text \<open>The snapshot that a tick fetches, if it gets that far.\<close>

definition tick_snapshot :: "tick_env \<Rightarrow> tenant \<Rightarrow> store world \<Rightarrow> string list option" where
  "tick_snapshot env a w =
     (case ensureFreshToken env (a\<lparr>lastPollAt := Some (now_tick env)\<rparr>) w of
        (Some err, a1, w1) \<Rightarrow> None
      | (None, a1, w1) \<Rightarrow>
          (case fst (fetchChatters (chatters_http env) (cfg_clientId env) (token a1)
                  (broadcasterId a1) (moderatorId a1)) of
             Inl err \<Rightarrow> None
           | Inr next \<Rightarrow> Some next))"

text \<open>The invariant: the open sessions of the channel are those of the presence set,
  one each.\<close>

definition in_step :: "string \<Rightarrow> tenant \<Rightarrow> store world \<Rightarrow> bool" where
  "in_step ch a w \<longleftrightarrow>
     broadcasterLogin a = Some ch \<and> distinct (current a)
     \<and> distinct (open_users ch (sessions (db w)))
     \<and> set (open_users ch (sessions (db w))) = set (current a)"

section \<open>Data for evaluation\<close>

text \<open>A small store for evaluation: alice has two open sessions on channel \<open>chan\<close>
  (joined at 1000 and at 3000), bob has a closed one, and carol is open on another channel.\<close>

definition demo_store :: store where
  "demo_store =
     \<lparr>events = [],
      sessions =
        [new_session ''alice'' 1000 ''chan'',
         close_row 2000 1 (new_session ''bob'' 1000 ''chan''),
         new_session ''alice'' 3000 ''chan'',
         new_session ''carol'' 1500 ''other''],
      users_table = Map.empty\<rparr>"

text \<open>Two providers for evaluation: one that serves two pages and then no cursor, and
  one that returns a cursor with every page, for ever.\<close>

definition demo_pages :: chatters_http where
  "demo_pages i rq =
     (if rq_after rq = None
      then Inr \<lparr>page_data = [Some ''Alice '', Some ''bob'', None], page_cursor = Some ''c1''\<rparr>
      else Inr \<lparr>page_data = [Some ''BOB'', Some '' '', Some ''carol''], page_cursor = None\<rparr>)"

definition endless_pages :: chatters_http where
  "endless_pages i rq = Inr \<lparr>page_data = [Some ''dave''], page_cursor = Some ''more''\<rparr>"

definition plain_error :: "string \<Rightarrow> js_error" where
  "plain_error msg =
     \<lparr>err_status = None, err_data = None, err_message = Some msg, err_string = ''Error: '' @ msg\<rparr>"

definition demo_user :: "string \<Rightarrow> string \<Rightarrow> twitch_user" where
  "demo_user uid login =
     \<lparr>tu_id = Some uid, tu_login = Some login, tu_display_name = Some login,
      tu_broadcaster_type = Some [], tu_profile_image_url = None\<rparr>"

definition demo_drain_env :: drain_env where
  "demo_drain_env =
     \<lparr>users_http = (\<lambda>k logins. Inr [demo_user ''1'' ''Ann'', demo_user ''2'' ''bea'', demo_user ''3'' ''cy'']),
      followers_http = (\<lambda>i uid. if i = 1 then Inl (plain_error ''timeout'') else Inr (Some (10 * int i))),
      save_clock = (\<lambda>i. 7000 + int i),
      during_users = [Enqueue [Some ''Dee'', None], Enter_drain],
      during_followers = (\<lambda>i. if i = 1 then [Enter_drain, Enqueue [Some ''Eve'']] else [])\<rparr>"

definition failing_drain_env :: drain_env where
  "failing_drain_env = demo_drain_env\<lparr>users_http := (\<lambda>k logins. Inl (plain_error ''down''))\<rparr>"

definition empty_store :: store where
  "empty_store = \<lparr>events = [], sessions = [], users_table = Map.empty\<rparr>"

definition demo_enricher :: enricher where
  "demo_enricher = \<lparr>queue = [''ann'', ''bea'', ''cy''], running = False\<rparr>"

text \<open>Fifty pending names, none of them \<open>zed\<close>.\<close>

definition fifty_names :: "string list" where
  "fifty_names = map (\<lambda>n. CHR ''u'' # replicate n CHR ''x'') [0..<50]"

definition full_enricher :: enricher where
  "full_enricher = \<lparr>queue = fifty_names, running = False\<rparr>"

definition demo_tenant :: tenant where
  "demo_tenant =
     \<lparr>token = Some ''tok0'', refreshToken = Some ''ref0'', tokenExpiresAt = Some 100000,
      moderatorId = Some ''42'', meLogin = Some ''mod'',
      tokenScopes = [''moderator:read:chatters''],
      broadcasterId = Some ''7'', broadcasterLogin = Some ''chan'',
      current = [], lastPollAt = None, lastError = None\<rparr>"

definition demo_world :: "store world" where
  "demo_world =
     \<lparr>db = empty_store, enrich = \<lparr>queue = [], running = False\<rparr>, enrichToken = None,
      authFile = None, refreshSent = [], chattersSent = []\<rparr>"

text \<open>A refresh answer with a new access token and lifetime, but neither a new
  refresh token nor a scope list.\<close>

definition bare_response :: token_response where
  "bare_response =
     \<lparr>access_token = Some ''tok1'', refresh_token = None, expires_in = Some 3600, scope = None\<rparr>"

definition full_response :: token_response where
  "full_response =
     \<lparr>access_token = Some ''tok1'', refresh_token = Some ''ref1'', expires_in = Some 3600,
      scope = Some [''moderator:read:followers'']\<rparr>"

definition demo_tick_env :: "token_response \<Rightarrow> tick_env" where
  "demo_tick_env r =
     \<lparr>cfg_clientId = Some ''cid'', cfg_clientSecret = Some ''secret'',
      now_tick = 50000, now_check = 50001, now_refreshed = 50200, now_recovered = 50900,
      refresh_http = (\<lambda>k t. Inr r),
      auth_write = (\<lambda>k entry. None),
      chatters_http = demo_pages\<rparr>"

definition unauthorized :: js_error where
  "unauthorized =
     \<lparr>err_status = Some 401, err_data = Some ''Unauthorized'',
      err_message = Some ''Request failed with status code 401'',
      err_string = ''AxiosError: Request failed with status code 401''\<rparr>"

definition late_tenant :: tenant where
  "late_tenant = demo_tenant\<lparr>tokenExpiresAt := Some 200000, current := [''alice'']\<rparr>"

text \<open>The chatters endpoint answers 401; the refresh that follows succeeds in the first
  environment and fails in the second.\<close>

definition denied_env :: tick_env where
  "denied_env = (demo_tick_env full_response)\<lparr>chatters_http := (\<lambda>i rq. Inl unauthorized)\<rparr>"

definition denied_twice_env :: tick_env where
  "denied_twice_env = denied_env\<lparr>refresh_http := (\<lambda>k t. Inl (plain_error ''invalid refresh token''))\<rparr>"

text \<open>The credential file cannot be written: in the first environment the write after
  the refresh of \<open>ensureFreshToken\<close> throws, in the second the one after the refresh in
  the \<open>catch\<close> block.\<close>

definition readonly_env :: tick_env where
  "readonly_env =
     (demo_tick_env full_response)\<lparr>auth_write := (\<lambda>k entry. Some (plain_error ''EACCES: permission denied''))\<rparr>"

definition denied_readonly_env :: tick_env where
  "denied_readonly_env =
     denied_env\<lparr>auth_write := (\<lambda>k entry. Some (plain_error ''EACCES: permission denied''))\<rparr>"

text \<open>A tenant whose token expires within the minute, with \<open>alice\<close> present.\<close>

definition due_tenant :: tenant where
  "due_tenant = demo_tenant\<lparr>current := [''alice'']\<rparr>"

definition tick_store :: store where
  "tick_store =
     \<lparr>events = [],
      sessions = [new_session ''alice'' 1000 ''chan'', new_session ''dan'' 2000 ''chan''],
      users_table = Map.empty\<rparr>"

definition steady_tenant :: "string list \<Rightarrow> tenant" where
  "steady_tenant present = demo_tenant\<lparr>tokenExpiresAt := Some 200000, current := present\<rparr>"

definition steady_env :: "chatters_http \<Rightarrow> tick_env" where
  "steady_env pages = (demo_tick_env full_response)\<lparr>chatters_http := pages\<rparr>"

text \<open>A tick at time \<open>t\<close> whose snapshot is one page with the given logins.\<close>

definition snapshot_env :: "int \<Rightarrow> string list \<Rightarrow> tick_env" where
  "snapshot_env t names =
     (steady_env (\<lambda>i rq. Inr \<lparr>page_data = map Some names, page_cursor = None\<rparr>))\<lparr>now_tick := t\<rparr>"

text \<open>A store whose leave for \<open>dan\<close> throws, and is otherwise the SQLite store.\<close>

definition flaky_store :: "store store_api" where
  "flaky_store =
     createStore\<lparr>api_eventLeave :=
       (\<lambda>u ts ch st. if u = ''dan'' then (Some (plain_error ''disk I/O error''), st)
                      else (None, eventLeave u ts ch st))\<rparr>"

definition three_open :: store where
  "three_open =
     \<lparr>events = [],
      sessions = [new_session ''alice'' 1000 ''chan'', new_session ''bob'' 1000 ''chan'',
                  new_session ''dan'' 2000 ''chan''],
      users_table = Map.empty\<rparr>"

text \<open>The state after a tick at 3000 with snapshot \<open>alice\<close> over the flaky store,
  from a presence set and a store that agree.\<close>

definition after_failed_tick :: "tenant \<times> store world" where
  "after_failed_tick =
     tickOne flaky_store (snapshot_env 3000 [''alice''])
       (steady_tenant [''alice'', ''bob'', ''dan'']) (demo_world\<lparr>db := three_open\<rparr>)"

text \<open>A tenant of another channel, and two rounds over the registry of that tenant and
  one of \<open>chan\<close>: first \<open>alice\<close> is in both chats and \<open>bob\<close> in that of \<open>chan\<close>, then
  \<open>alice\<close> alone is left, in the chat of \<open>chan\<close>.\<close>

definition other_tenant :: tenant where
  "other_tenant =
     (steady_tenant [])\<lparr>broadcasterId := Some ''8'', broadcasterLogin := Some ''other''\<rparr>"

definition first_round :: "nat \<Rightarrow> tick_env" where
  "first_round i = (if i = 0 then snapshot_env 1000 [''alice''] else snapshot_env 1000 [''alice'', ''bob''])"

definition second_round :: "nat \<Rightarrow> tick_env" where
  "second_round i = (if i = 0 then snapshot_env 3000 [] else snapshot_env 3000 [''alice''])"

definition after_first_round :: "tenant list \<times> store world" where
  "after_first_round = tickAll createStore first_round [other_tenant, steady_tenant []] demo_world"

text \<open>Two tenants of the same channel (two browser sessions signed in for it), and a
  round in which both see \<open>alice\<close>.\<close>

definition shared_round :: "nat \<Rightarrow> tick_env" where
  "shared_round i = snapshot_env 1000 [''alice'']"

definition after_shared_round :: "tenant list \<times> store world" where
  "after_shared_round =
     tickAll createStore shared_round [steady_tenant [], steady_tenant []] demo_world"

section \<open>Properties of the session store\<close>

lemma latest_open_None: "latest_open u ch rs = None \<longleftrightarrow> (\<forall>r \<in> set rs. \<not> open_for u ch r)"
  by (induction rs) (auto split: option.splits)

lemma latest_open_Some:
  "latest_open u ch rs = Some i \<Longrightarrow>
     i < length rs \<and> open_for u ch (rs ! i) \<and>
     (\<forall>j < length rs. open_for u ch (rs ! j) \<longrightarrow> joined_at (rs ! j) \<le> joined_at (rs ! i))"
proof (induction rs arbitrary: i)
  case Nil
  then show ?case by simp
next
  case (Cons r rs)
  show ?case
  proof (cases "latest_open u ch rs")
    case None
    with Cons.prems have i: "i = 0" and r: "open_for u ch r"
      by (auto split: if_splits)
    from None have "\<forall>x \<in> set rs. \<not> open_for u ch x"
      by (simp add: latest_open_None)
    then have "\<forall>j < length rs. \<not> open_for u ch (rs ! j)"
      by simp
    with i r show ?thesis
      by (auto simp: nth_Cons split: nat.splits)
  next
    case (Some k)
    from Cons.IH[OF Some] have k: "k < length rs" "open_for u ch (rs ! k)"
      and mx: "\<forall>j < length rs. open_for u ch (rs ! j) \<longrightarrow> joined_at (rs ! j) \<le> joined_at (rs ! k)"
      by auto
    show ?thesis
    proof (cases "open_for u ch r \<and> joined_at (rs ! k) \<le> joined_at r")
      case True
      with Some Cons.prems have i: "i = 0" by simp
      from True mx have "\<forall>j < length rs. open_for u ch (rs ! j) \<longrightarrow> joined_at (rs ! j) \<le> joined_at r"
        by force
      with i True show ?thesis
        by (auto simp: nth_Cons split: nat.splits)
    next
      case False
      with Some Cons.prems have i: "i = Suc k" by auto
      from False k mx have "open_for u ch r \<longrightarrow> joined_at r \<le> joined_at (rs ! k)"
        by auto
      with i k mx show ?thesis
        by (auto simp: nth_Cons split: nat.splits)
    qed
  qed
qed

lemma sessions_insertEvent [simp]: "sessions (insertEvent u k ts ch st) = sessions st"
  by (simp add: insertEvent_def)

lemma events_insertEvent [simp]:
  "events (insertEvent u k ts ch st) =
     events st @ [\<lparr>ev_username = u, ev_type = k, ev_ts = ts, ev_channel_login = Some ch\<rparr>]"
  by (simp add: insertEvent_def)

lemma events_closeSession [simp]: "events (closeSession ts dur u ch st) = events st"
  by (simp add: closeSession_def split: option.splits)

text \<open>
  C10. A leave for a (channel, username) pair without an open session still appends
  the leave event row to the events table, leaves every session row as it was (none is
  created, none is modified), and leaves the profile table alone. \<open>eventLeave\<close> has no
  failing branch of its own: it is a total function of the store.
\<close>

theorem eventLeave_without_open_session:
  assumes "\<forall>r \<in> set (sessions st). \<not> open_for u ch r"
  shows "events (eventLeave u ts ch st) =
           events st @ [\<lparr>ev_username = u, ev_type = Leave, ev_ts = ts, ev_channel_login = Some ch\<rparr>]
         \<and> sessions (eventLeave u ts ch st) = sessions st
         \<and> users_table (eventLeave u ts ch st) = users_table st"
proof -
  from assms have "latest_open u ch (sessions st) = None"
    by (simp add: latest_open_None)
  then show ?thesis
    by (simp add: eventLeave_def insertEvent_def)
qed

lemmas demo_store_simps =
  demo_store_def new_session_def close_row_def open_for_def session_duration_def
  eventLeave_def eventJoin_def closeSession_def insertEvent_def insertSession_def

theorem eventLeave_without_open_session_witness:
  "events (eventLeave ''bob'' 5000 ''chan'' demo_store) =
     [\<lparr>ev_username = ''bob'', ev_type = Leave, ev_ts = 5000, ev_channel_login = Some ''chan''\<rparr>]
   \<and> sessions (eventLeave ''bob'' 5000 ''chan'' demo_store) = sessions demo_store
   \<and> users_table (eventLeave ''bob'' 5000 ''chan'' demo_store) = users_table demo_store"
proof -
  have h: "\<forall>r \<in> set (sessions demo_store). \<not> open_for ''bob'' ''chan'' r"
    by (simp add: demo_store_def new_session_def close_row_def open_for_def)
  have e: "events demo_store = []"
    by (simp add: demo_store_def)
  from eventLeave_without_open_session [OF h, of 5000] e show ?thesis
    by simp
qed

text \<open>
  C5. When the (channel, username) pair has at least one open session, a leave at
  \<open>ts\<close> picks an open session \<open>i\<close> of that pair whose \<open>joined_at\<close> is greatest among
  the pair's open sessions, and rewrites exactly that row: \<open>left_at\<close> becomes \<open>ts\<close> and
  \<open>duration_sec\<close> becomes \<open>max 0 ((ts - joined_at) div 1000)\<close>, where \<open>div\<close> is the
  floor division. Every other row stays as it was, and the stored duration is never
  negative, also when \<open>ts\<close> lies before \<open>joined_at\<close>.
\<close>

theorem eventLeave_closes_latest_open:
  assumes "\<exists>r \<in> set (sessions st). open_for u ch r"
  shows "\<exists>i < length (sessions st).
           open_for u ch (sessions st ! i)
         \<and> (\<forall>j < length (sessions st).
               open_for u ch (sessions st ! j) \<longrightarrow>
               joined_at (sessions st ! j) \<le> joined_at (sessions st ! i))
         \<and> sessions (eventLeave u ts ch st) =
             (sessions st)[i := (sessions st ! i)
                \<lparr>left_at := Some ts,
                 duration_sec := Some (max 0 ((ts - joined_at (sessions st ! i)) div 1000))\<rparr>]
         \<and> (\<exists>d. duration_sec (sessions (eventLeave u ts ch st) ! i) = Some d \<and> 0 \<le> d)"
proof -
  from assms obtain i where i: "latest_open u ch (sessions st) = Some i"
    using latest_open_None [of u ch "sessions st"] by (cases "latest_open u ch (sessions st)") auto
  from latest_open_Some [OF i]
  have len: "i < length (sessions st)"
    and op: "open_for u ch (sessions st ! i)"
    and mx: "\<forall>j < length (sessions st).
               open_for u ch (sessions st ! j) \<longrightarrow>
               joined_at (sessions st ! j) \<le> joined_at (sessions st ! i)"
    by auto
  have upd: "sessions (eventLeave u ts ch st) =
               (sessions st)[i := (sessions st ! i)
                  \<lparr>left_at := Some ts,
                   duration_sec := Some (max 0 ((ts - joined_at (sessions st ! i)) div 1000))\<rparr>]"
    using i by (simp add: eventLeave_def closeSession_def close_row_def session_duration_def)
  have "duration_sec (sessions (eventLeave u ts ch st) ! i) =
          Some (max 0 ((ts - joined_at (sessions st ! i)) div 1000))"
    using len by (simp add: upd)
  then have "\<exists>d. duration_sec (sessions (eventLeave u ts ch st) ! i) = Some d \<and> 0 \<le> d"
    by simp
  with len op mx upd show ?thesis
    by blast
qed

text \<open>At the demo store: alice leaves at 2500, before the 3000 at which her latest
  session was opened; that session (row 2) is closed with duration 0, and her
  older session (row 0) stays open.\<close>

theorem eventLeave_closes_latest_open_witness:
  "(\<exists>r \<in> set (sessions demo_store). open_for ''alice'' ''chan'' r)
   \<and> (\<exists>i < length (sessions demo_store).
         open_for ''alice'' ''chan'' (sessions demo_store ! i)
       \<and> (\<forall>j < length (sessions demo_store).
             open_for ''alice'' ''chan'' (sessions demo_store ! j) \<longrightarrow>
             joined_at (sessions demo_store ! j) \<le> joined_at (sessions demo_store ! i))
       \<and> sessions (eventLeave ''alice'' 2500 ''chan'' demo_store) =
           (sessions demo_store)[i := (sessions demo_store ! i)
              \<lparr>left_at := Some 2500,
               duration_sec := Some (max 0 ((2500 - joined_at (sessions demo_store ! i)) div 1000))\<rparr>]
       \<and> (\<exists>d. duration_sec (sessions (eventLeave ''alice'' 2500 ''chan'' demo_store) ! i) = Some d
              \<and> 0 \<le> d))
   \<and> sessions (eventLeave ''alice'' 2500 ''chan'' demo_store) =
       [new_session ''alice'' 1000 ''chan'',
        close_row 2000 1 (new_session ''bob'' 1000 ''chan''),
        close_row 2500 0 (new_session ''alice'' 3000 ''chan''),
        new_session ''carol'' 1500 ''other'']"
proof -
  have h: "\<exists>r \<in> set (sessions demo_store). open_for ''alice'' ''chan'' r"
    by (simp add: demo_store_def new_session_def open_for_def)
  have v: "sessions (eventLeave ''alice'' 2500 ''chan'' demo_store) =
       [new_session ''alice'' 1000 ''chan'',
        close_row 2000 1 (new_session ''bob'' 1000 ''chan''),
        close_row 2500 0 (new_session ''alice'' 3000 ''chan''),
        new_session ''carol'' 1500 ''other'']"
    by (simp add: demo_store_simps)
  from h v eventLeave_closes_latest_open [OF h, of 2500] show ?thesis
    by blast
qed

section \<open>Properties of the chatters fetch\<close>

lemma lower_char_idem: "lower_char (lower_char c) = lower_char c"
  by (simp add: lower_char_def Let_def)

lemma toLowerCase_idem: "toLowerCase (toLowerCase s) = toLowerCase s"
  by (simp add: toLowerCase_def lower_char_idem)

lemma set_trim: "set (trim s) \<subseteq> set s"
  by (auto simp: trim_def dest!: set_dropWhileD)

lemma toLowerCase_fixed_iff: "toLowerCase s = s \<longleftrightarrow> (\<forall>c \<in> set s. lower_char c = c)"
  by (simp add: toLowerCase_def map_idI map_eq_conv[where g=id, simplified] )

lemma toLowerCase_trim: "toLowerCase s = s \<Longrightarrow> toLowerCase (trim s) = trim s"
  using set_trim[of s] by (auto simp: toLowerCase_fixed_iff)

lemma toLowerCase_norm_login: "toLowerCase (norm_login v) = norm_login v"
  by (simp add: norm_login_def toLowerCase_trim toLowerCase_idem)

lemma set_add_logins:
  "set (add_logins users rows) = set users \<union> {u. u \<noteq> [] \<and> (\<exists>row \<in> set rows. u = norm_login row)}"
  by (induction users rows rule: add_logins.induct) (auto simp: set_add_def Let_def)

lemma distinct_add_logins: "distinct users \<Longrightarrow> distinct (add_logins users rows)"
  by (induction users rows rule: add_logins.induct) (auto simp: set_add_def Let_def)

lemma loop_stop:
  "\<not> i < 20 \<Longrightarrow> fetchChatters_loop http p i users after sent = (Inr users, sent)"
  by (subst fetchChatters_loop.simps) simp

lemma loop_err:
  "i < 20 \<Longrightarrow> http i (next_request p after) = Inl e \<Longrightarrow>
   fetchChatters_loop http p i users after sent = (Inl e, sent @ [next_request p after])"
  by (subst fetchChatters_loop.simps) simp

lemma loop_last:
  "i < 20 \<Longrightarrow> http i (next_request p after) = Inr pg \<Longrightarrow> \<not> truthy (page_cursor pg) \<Longrightarrow>
   fetchChatters_loop http p i users after sent =
     (Inr (add_logins users (page_data pg)), sent @ [next_request p after])"
  by (subst fetchChatters_loop.simps) (simp add: Let_def)

lemma loop_more:
  "i < 20 \<Longrightarrow> http i (next_request p after) = Inr pg \<Longrightarrow> truthy (page_cursor pg) \<Longrightarrow>
   fetchChatters_loop http p i users after sent =
     fetchChatters_loop http p (i + 1) (add_logins users (page_data pg)) (page_cursor pg)
       (sent @ [next_request p after])"
  by (subst fetchChatters_loop.simps) (simp add: Let_def)

lemma loop_cases [case_names stop err last more]:
  assumes "\<not> i < 20 \<Longrightarrow> R"
    and "\<And>e. i < 20 \<Longrightarrow> http i (next_request p after) = Inl e \<Longrightarrow> R"
    and "\<And>pg. i < 20 \<Longrightarrow> http i (next_request p after) = Inr pg \<Longrightarrow> \<not> truthy (page_cursor pg) \<Longrightarrow> R"
    and "\<And>pg. i < 20 \<Longrightarrow> http i (next_request p after) = Inr pg \<Longrightarrow> truthy (page_cursor pg) \<Longrightarrow> R"
  shows R
  using assms by (cases "i < 20"; cases "http i (next_request p after)") auto

lemma loop_sent:
  "\<exists>ext. snd (fetchChatters_loop http p i users after sent) = sent @ ext
         \<and> length ext \<le> 20 - i
         \<and> (i < 20 \<longrightarrow> ext \<noteq> [] \<and> hd ext = next_request p after)"
proof (induction http p i users after sent rule: fetchChatters_loop.induct)
  case (1 http p i users after sent)
  show ?case
  proof (cases rule: loop_cases [where i=i and http=http and p=p and after=after])
    case stop
    then show ?thesis by (simp add: loop_stop)
  next
    case (err e)
    then show ?thesis by (simp add: loop_err)
  next
    case (last pg)
    then show ?thesis by (simp add: loop_last)
  next
    case (more pg)
    from "1.IH" [OF more(1) refl more(2) refl refl] more(3)
    obtain ext where
      ext: "snd (fetchChatters_loop http p (i + 1) (add_logins users (page_data pg))
                  (page_cursor pg) (sent @ [next_request p after]))
            = (sent @ [next_request p after]) @ ext"
      and len: "length ext \<le> 20 - (i + 1)"
      by auto
    have "snd (fetchChatters_loop http p i users after sent) = sent @ (next_request p after # ext)"
      using more ext by (simp add: loop_more)
    moreover have "length (next_request p after # ext) \<le> 20 - i"
      using len more(1) by simp
    ultimately show ?thesis
      by (metis list.sel(1) list.distinct(1))
  qed
qed

lemma loop_follow:
  "length sent = i \<Longrightarrow>
   \<forall>k. i \<le> k \<and> Suc k < length (snd (fetchChatters_loop http p i users after sent)) \<longrightarrow>
     (\<exists>pg. http k (snd (fetchChatters_loop http p i users after sent) ! k) = Inr pg
         \<and> truthy (page_cursor pg)
         \<and> snd (fetchChatters_loop http p i users after sent) ! Suc k
             = next_request p (page_cursor pg))"
proof (induction http p i users after sent rule: fetchChatters_loop.induct)
  case (1 http p i users after sent)
  show ?case
  proof (cases rule: loop_cases [where i=i and http=http and p=p and after=after])
    case stop
    then show ?thesis using "1.prems" by (auto simp: loop_stop)
  next
    case (err e)
    then show ?thesis using "1.prems" by (auto simp: loop_err nth_append)
  next
    case (last pg)
    then show ?thesis using "1.prems" by (auto simp: loop_last nth_append)
  next
    case (more pg)
    let ?rq = "next_request p after"
    let ?out = "snd (fetchChatters_loop http p (i + 1) (add_logins users (page_data pg))
                  (page_cursor pg) (sent @ [?rq]))"
    have eq: "snd (fetchChatters_loop http p i users after sent) = ?out"
      using more by (simp add: loop_more)
    from loop_sent [of http p "i + 1" "add_logins users (page_data pg)" "page_cursor pg" "sent @ [?rq]"]
    obtain ext where ext: "?out = (sent @ [?rq]) @ ext"
      and hd: "i + 1 < 20 \<longrightarrow> ext \<noteq> [] \<and> hd ext = next_request p (page_cursor pg)"
      and len: "length ext \<le> 20 - (i + 1)"
      by blast
    have IH: "\<forall>k. i + 1 \<le> k \<and> Suc k < length ?out \<longrightarrow>
        (\<exists>pg'. http k (?out ! k) = Inr pg' \<and> truthy (page_cursor pg')
           \<and> ?out ! Suc k = next_request p (page_cursor pg'))"
      using "1.IH" [OF more(1) refl more(2) refl refl] more(3) "1.prems" by simp
    have at_i: "?out ! i = ?rq"
      using ext "1.prems" by (simp add: nth_append)
    have first: "Suc i < length ?out \<longrightarrow> ?out ! Suc i = next_request p (page_cursor pg)"
    proof
      assume "Suc i < length ?out"
      with ext "1.prems" have ne: "ext \<noteq> []" by auto
      with len have "i + 1 < 20" by (cases ext) auto
      with hd have "hd ext = next_request p (page_cursor pg)" by simp
      moreover have "?out ! Suc i = hd ext"
        using ext ne "1.prems" by (simp add: nth_append hd_conv_nth)
      ultimately show "?out ! Suc i = next_request p (page_cursor pg)" by simp
    qed
    show ?thesis
      unfolding eq
    proof (intro allI impI)
      fix k assume k: "i \<le> k \<and> Suc k < length ?out"
      show "\<exists>pg'. http k (?out ! k) = Inr pg' \<and> truthy (page_cursor pg')
           \<and> ?out ! Suc k = next_request p (page_cursor pg')"
      proof (cases "k = i")
        case True
        with k first at_i more show ?thesis by auto
      next
        case False
        with k have "i + 1 \<le> k \<and> Suc k < length ?out" by simp
        with IH show ?thesis by blast
      qed
    qed
  qed
qed

lemma loop_final:
  "length sent = i \<Longrightarrow> i < 20 \<Longrightarrow>
   (let out = snd (fetchChatters_loop http p i users after sent);
        res = fst (fetchChatters_loop http p i users after sent);
        k = length out - 1
    in (\<exists>e. http k (out ! k) = Inl e \<and> res = Inl e)
     \<or> (\<exists>pg. http k (out ! k) = Inr pg
            \<and> (\<not> truthy (page_cursor pg) \<or> length out = 20)
            \<and> (\<exists>us. res = Inr us)))"
proof (induction http p i users after sent rule: fetchChatters_loop.induct)
  case (1 http p i users after sent)
  show ?case
  proof (cases rule: loop_cases [where i=i and http=http and p=p and after=after])
    case stop
    then show ?thesis using "1.prems" by simp
  next
    case (err e)
    then show ?thesis using "1.prems" by (auto simp: loop_err nth_append)
  next
    case (last pg)
    then show ?thesis using "1.prems" by (auto simp: loop_last nth_append)
  next
    case (more pg)
    let ?rq = "next_request p after"
    let ?r = "fetchChatters_loop http p (i + 1) (add_logins users (page_data pg))
                  (page_cursor pg) (sent @ [?rq])"
    have eq: "fetchChatters_loop http p i users after sent = ?r"
      using more by (simp add: loop_more)
    show ?thesis
    proof (cases "i + 1 < 20")
      case True
      from "1.IH" [OF more(1) refl more(2) refl refl _ _ True] more(3) "1.prems"
      show ?thesis unfolding eq by simp
    next
      case False
      with more(1) have i: "i = 19" by simp
      have r: "?r = (Inr (add_logins users (page_data pg)), sent @ [?rq])"
        using i by (simp add: loop_stop)
      show ?thesis
        unfolding eq r using "1.prems" more i by (simp add: Let_def nth_append)
    qed
  qed
qed

lemma loop_distinct:
  "distinct users \<Longrightarrow> fst (fetchChatters_loop http p i users after sent) = Inr us \<Longrightarrow> distinct us"
proof (induction http p i users after sent rule: fetchChatters_loop.induct)
  case (1 http p i users after sent)
  show ?case
  proof (cases rule: loop_cases [where i=i and http=http and p=p and after=after])
    case stop
    then show ?thesis using "1.prems" by (simp add: loop_stop)
  next
    case (err e)
    then show ?thesis using "1.prems" by (simp add: loop_err)
  next
    case (last pg)
    then show ?thesis using "1.prems" by (auto simp: loop_last distinct_add_logins)
  next
    case (more pg)
    have "distinct (add_logins users (page_data pg))"
      using "1.prems"(1) by (rule distinct_add_logins)
    from "1.IH" [OF more(1) refl more(2) refl refl _ this] more "1.prems"(2)
    show ?thesis by (simp add: loop_more)
  qed
qed

lemma set_add_logins': "set (add_logins users (page_data pg)) = set users \<union> page_logins pg"
  by (simp add: set_add_logins page_logins_def)

lemma loop_users:
  "length sent = i \<Longrightarrow> fst (fetchChatters_loop http p i users after sent) = Inr us \<Longrightarrow>
   u \<in> set us \<longleftrightarrow>
     u \<in> set users \<or>
     (\<exists>k pg. i \<le> k \<and> k < length (snd (fetchChatters_loop http p i users after sent))
        \<and> http k (snd (fetchChatters_loop http p i users after sent) ! k) = Inr pg
        \<and> u \<in> page_logins pg)"
proof (induction http p i users after sent rule: fetchChatters_loop.induct)
  case (1 http p i users after sent)
  let ?rq = "next_request p after"
  show ?case
  proof (cases rule: loop_cases [where i=i and http=http and p=p and after=after])
    case stop
    then show ?thesis using "1.prems" by (auto simp: loop_stop)
  next
    case (err e)
    then show ?thesis using "1.prems" by (simp add: loop_err)
  next
    case (last pg)
    have r: "fetchChatters_loop http p i users after sent =
       (Inr (add_logins users (page_data pg)), sent @ [?rq])"
      using last by (simp add: loop_last)
    have us: "us = add_logins users (page_data pg)"
      using "1.prems"(2) r by simp
    have "(\<exists>k pg'. i \<le> k \<and> k < length (sent @ [?rq]) \<and> http k ((sent @ [?rq]) ! k) = Inr pg'
              \<and> u \<in> page_logins pg') \<longleftrightarrow> u \<in> page_logins pg"
    proof
      assume "\<exists>k pg'. i \<le> k \<and> k < length (sent @ [?rq]) \<and> http k ((sent @ [?rq]) ! k) = Inr pg'
              \<and> u \<in> page_logins pg'"
      then obtain k pg' where k: "i \<le> k" "k < length (sent @ [?rq])"
        and h: "http k ((sent @ [?rq]) ! k) = Inr pg'" and u: "u \<in> page_logins pg'"
        by blast
      from k "1.prems"(1) have "k = i" by simp
      with h "1.prems"(1) last(2) have "pg' = pg" by (simp add: nth_append)
      with u show "u \<in> page_logins pg" by simp
    next
      assume "u \<in> page_logins pg"
      moreover have "http i ((sent @ [?rq]) ! i) = Inr pg"
        using "1.prems"(1) last(2) by (simp add: nth_append)
      moreover have "i < length (sent @ [?rq])"
        using "1.prems"(1) by simp
      ultimately show "\<exists>k pg'. i \<le> k \<and> k < length (sent @ [?rq]) \<and> http k ((sent @ [?rq]) ! k) = Inr pg'
              \<and> u \<in> page_logins pg'"
        by blast
    qed
    then show ?thesis
      unfolding r us by (simp add: set_add_logins')
  next
    case (more pg)
    let ?r = "fetchChatters_loop http p (i + 1) (add_logins users (page_data pg))
                  (page_cursor pg) (sent @ [?rq])"
    have eq: "fetchChatters_loop http p i users after sent = ?r"
      using more by (simp add: loop_more)
    from loop_sent [of http p "i + 1" "add_logins users (page_data pg)" "page_cursor pg" "sent @ [?rq]"]
    obtain ext where ext: "snd ?r = (sent @ [?rq]) @ ext"
      by blast
    have at_i: "http i (snd ?r ! i) = Inr pg"
      using ext "1.prems"(1) more(2) by (simp add: nth_append)
    have len: "i < length (snd ?r)"
      using ext "1.prems"(1) by simp
    have IH: "u \<in> set us \<longleftrightarrow> u \<in> set users \<or> u \<in> page_logins pg \<or>
       (\<exists>k pg'. i + 1 \<le> k \<and> k < length (snd ?r) \<and> http k (snd ?r ! k) = Inr pg'
          \<and> u \<in> page_logins pg')"
      using "1.IH" [OF more(1) refl more(2) refl refl] more(3) "1.prems" eq
      by (simp add: set_add_logins')
    have "(\<exists>k pg'. i \<le> k \<and> k < length (snd ?r) \<and> http k (snd ?r ! k) = Inr pg'
              \<and> u \<in> page_logins pg') \<longleftrightarrow>
          u \<in> page_logins pg \<or>
          (\<exists>k pg'. i + 1 \<le> k \<and> k < length (snd ?r) \<and> http k (snd ?r ! k) = Inr pg'
              \<and> u \<in> page_logins pg')"
    proof
      assume "\<exists>k pg'. i \<le> k \<and> k < length (snd ?r) \<and> http k (snd ?r ! k) = Inr pg'
              \<and> u \<in> page_logins pg'"
      then obtain k pg' where k: "i \<le> k" "k < length (snd ?r)"
        and h: "http k (snd ?r ! k) = Inr pg'" and u: "u \<in> page_logins pg'"
        by blast
      show "u \<in> page_logins pg \<or>
          (\<exists>k pg'. i + 1 \<le> k \<and> k < length (snd ?r) \<and> http k (snd ?r ! k) = Inr pg'
              \<and> u \<in> page_logins pg')"
      proof (cases "k = i")
        case True
        with h at_i u show ?thesis by simp
      next
        case False
        with k have "i + 1 \<le> k" by simp
        with k h u show ?thesis by blast
      qed
    next
      assume "u \<in> page_logins pg \<or>
          (\<exists>k pg'. i + 1 \<le> k \<and> k < length (snd ?r) \<and> http k (snd ?r ! k) = Inr pg'
              \<and> u \<in> page_logins pg')"
      then show "\<exists>k pg'. i \<le> k \<and> k < length (snd ?r) \<and> http k (snd ?r ! k) = Inr pg'
              \<and> u \<in> page_logins pg'"
      proof
        assume "u \<in> page_logins pg"
        with at_i len show ?thesis by blast
      next
        assume "\<exists>k pg'. i + 1 \<le> k \<and> k < length (snd ?r) \<and> http k (snd ?r ! k) = Inr pg'
              \<and> u \<in> page_logins pg'"
        then obtain k pg' where "i + 1 \<le> k" "k < length (snd ?r)"
          "http k (snd ?r ! k) = Inr pg'" "u \<in> page_logins pg'"
          by blast
        moreover from this have "i \<le> k" by simp
        ultimately show ?thesis by blast
      qed
    qed
    with IH show ?thesis
      unfolding eq by simp
  qed
qed

lemma rq_first_next_request [simp]: "rq_first (next_request p c) = rq_first p"
  by (simp add: next_request_def)

lemma rq_after_next_request: "truthy c \<Longrightarrow> rq_after (next_request p c) = c"
  by (simp add: next_request_def)

lemma next_request_None [simp]: "next_request p None = p"
  by (simp add: next_request_def truthy_def)

lemma norm_demo: "norm_login (Some ''Alice '') = ''alice''" "norm_login (Some ''BOB'') = ''bob''"
  "norm_login (Some '' '') = []" "norm_login None = []" "norm_login (Some ''bob'') = ''bob''"
  "norm_login (Some ''carol'') = ''carol''"
  by code_simp+

lemma demo_run:
  "fetchChatters demo_pages (Some ''cid'') (Some ''tok'') (Some ''1'') (Some ''2'') =
    (Inr [''alice'', ''bob'', ''carol''],
     [\<lparr>rq_client_id = Some ''cid'', rq_token = Some ''tok'', rq_broadcaster_id = Some ''1'',
       rq_moderator_id = Some ''2'', rq_first = 1000, rq_after = None\<rparr>,
      \<lparr>rq_client_id = Some ''cid'', rq_token = Some ''tok'', rq_broadcaster_id = Some ''1'',
       rq_moderator_id = Some ''2'', rq_first = 1000, rq_after = Some ''c1''\<rparr>])"
  by (simp add: fetchChatters_def fetchChatters_loop.simps demo_pages_def next_request_def
      truthy_def norm_demo set_add_def Let_def)

text \<open>
  C9. One call of \<open>fetchChatters\<close> returns \<open>res\<close> after sending the requests \<open>sent\<close>.
  It sends at least one and at most 20 requests, each asking for pages of 1000; the
  first carries no cursor and every later one carries the cursor of the page before it,
  which was truthy. The last request either failed (and the call throws that error) or
  returned a page without a truthy cursor, or was the 20th; so the call stops at the
  first page without a cursor. A returned set has no duplicates and holds exactly the
  non-empty lowercased and trimmed logins of the pages received. Against a provider that
  returns a cursor with every page the call still returns, after exactly 20 requests.
\<close>

theorem fetchChatters_paginates:
  assumes run: "fetchChatters http cid tok bid mid = (res, sent)"
  shows "1 \<le> length sent \<and> length sent \<le> 20
       \<and> (\<forall>k < length sent. rq_first (sent ! k) = 1000)
       \<and> rq_after (sent ! 0) = None
       \<and> (\<forall>k. Suc k < length sent \<longrightarrow>
             (\<exists>pg. http k (sent ! k) = Inr pg \<and> truthy (page_cursor pg)
                 \<and> rq_after (sent ! Suc k) = page_cursor pg))
       \<and> ((\<exists>e. http (length sent - 1) (last sent) = Inl e \<and> res = Inl e)
          \<or> (\<exists>pg. http (length sent - 1) (last sent) = Inr pg
                \<and> (\<not> truthy (page_cursor pg) \<or> length sent = 20)
                \<and> (\<exists>us. res = Inr us)))
       \<and> (\<forall>us. res = Inr us \<longrightarrow>
             distinct us
           \<and> set us = {u. \<exists>k pg. k < length sent \<and> http k (sent ! k) = Inr pg \<and> u \<in> page_logins pg})
       \<and> ((\<forall>k rq. \<exists>pg. http k rq = Inr pg \<and> truthy (page_cursor pg)) \<longrightarrow>
             length sent = 20 \<and> (\<exists>us. res = Inr us))"
proof -
  define p where "p = \<lparr>rq_client_id = cid, rq_token = tok,
        rq_broadcaster_id = bid, rq_moderator_id = mid,
        rq_first = 1000, rq_after = None\<rparr>"
  have p: "rq_first p = 1000" "rq_after p = None"
    by (simp_all add: p_def)
  have r: "fetchChatters_loop http p 0 [] None [] = (res, sent)"
    using run by (simp add: fetchChatters_def p_def)
  from loop_sent [of http p 0 "[]" None "[]"] r
  have len: "1 \<le> length sent" "length sent \<le> 20" and first: "sent ! 0 = p"
    by (auto simp: hd_conv_nth Suc_le_eq)
  have follow: "\<forall>k. Suc k < length sent \<longrightarrow>
      (\<exists>pg. http k (sent ! k) = Inr pg \<and> truthy (page_cursor pg)
          \<and> sent ! Suc k = next_request p (page_cursor pg))"
    using loop_follow [of "[]" 0 http p "[]" None] r by simp
  have q: "rq_first (sent ! k) = 1000" if "k < length sent" for k
  proof (cases k)
    case 0
    with first p show ?thesis by simp
  next
    case (Suc j)
    with that have "Suc j < length sent" by simp
    with follow obtain pg :: page where "sent ! Suc j = next_request p (page_cursor pg)"
      by blast
    with Suc p show ?thesis by simp
  qed
  have cur: "\<forall>k. Suc k < length sent \<longrightarrow>
      (\<exists>pg. http k (sent ! k) = Inr pg \<and> truthy (page_cursor pg)
          \<and> rq_after (sent ! Suc k) = page_cursor pg)"
    using follow by (metis rq_after_next_request)
  have lst: "last sent = sent ! (length sent - 1)"
    using len by (cases sent) (auto simp: last_conv_nth)
  have fin: "(\<exists>e. http (length sent - 1) (last sent) = Inl e \<and> res = Inl e)
          \<or> (\<exists>pg. http (length sent - 1) (last sent) = Inr pg
                \<and> (\<not> truthy (page_cursor pg) \<or> length sent = 20)
                \<and> (\<exists>us. res = Inr us))"
    using loop_final [of "[]" 0 http p "[]" None] r lst by (simp add: Let_def)
  have us: "distinct us
      \<and> set us = {u. \<exists>k pg. k < length sent \<and> http k (sent ! k) = Inr pg \<and> u \<in> page_logins pg}"
    if "res = Inr us" for us
  proof
    show "distinct us"
      using loop_distinct [of "[]" http p 0 None "[]" us] r that by simp
    have "u \<in> set us \<longleftrightarrow>
        (\<exists>k pg. k < length sent \<and> http k (sent ! k) = Inr pg \<and> u \<in> page_logins pg)" for u
      using loop_users [of "[]" 0 http p "[]" None us u] r that by simp
    then show "set us = {u. \<exists>k pg. k < length sent \<and> http k (sent ! k) = Inr pg \<and> u \<in> page_logins pg}"
      by blast
  qed
  have forever: "length sent = 20 \<and> (\<exists>us. res = Inr us)"
    if "\<forall>k rq. \<exists>pg. http k rq = Inr pg \<and> truthy (page_cursor pg)"
  proof -
    from that obtain pg where pg: "http (length sent - 1) (last sent) = Inr pg" "truthy (page_cursor pg)"
      by blast
    with fin show ?thesis by auto
  qed
  from len q first p cur fin us forever show ?thesis
    by simp
qed

theorem fetchChatters_paginates_witness:
  "fetchChatters demo_pages (Some ''cid'') (Some ''tok'') (Some ''1'') (Some ''2'') =
    (Inr [''alice'', ''bob'', ''carol''],
     [\<lparr>rq_client_id = Some ''cid'', rq_token = Some ''tok'', rq_broadcaster_id = Some ''1'',
       rq_moderator_id = Some ''2'', rq_first = 1000, rq_after = None\<rparr>,
      \<lparr>rq_client_id = Some ''cid'', rq_token = Some ''tok'', rq_broadcaster_id = Some ''1'',
       rq_moderator_id = Some ''2'', rq_first = 1000, rq_after = Some ''c1''\<rparr>])
   \<and> length (snd (fetchChatters endless_pages (Some ''cid'') (Some ''tok'') (Some ''1'') (Some ''2''))) = 20
   \<and> (\<exists>us. fst (fetchChatters endless_pages (Some ''cid'') (Some ''tok'') (Some ''1'') (Some ''2''))
           = Inr us \<and> distinct us)"
proof -
  let ?r = "fetchChatters endless_pages (Some ''cid'') (Some ''tok'') (Some ''1'') (Some ''2'')"
  have e: "\<forall>k rq. \<exists>pg. endless_pages k rq = Inr pg \<and> truthy (page_cursor pg)"
    by (simp add: endless_pages_def truthy_def)
  have "?r = (fst ?r, snd ?r)"
    by simp
  from fetchChatters_paginates [OF this] e
  have "length (snd ?r) = 20 \<and> (\<exists>us. fst ?r = Inr us \<and> distinct us)"
    by blast
  with demo_run show ?thesis
    by simp
qed

section \<open>Properties of the enrichment queue\<close>

lemma set_enqueue_names:
  "set (enqueue_names us q) = set q \<union> {toLowerCase (or_empty u) | u. u \<in> set us \<and> truthy u}"
  by (induction us arbitrary: q) (auto simp: set_add_def)

lemma distinct_enqueue_names: "distinct q \<Longrightarrow> distinct (enqueue_names us q)"
  by (induction us arbitrary: q) (auto simp: set_add_def)

lemma enqueue_names_extends: "\<exists>ext. enqueue_names us q = q @ ext"
proof (induction us arbitrary: q)
  case Nil
  then show ?case by simp
next
  case (Cons u us)
  show ?case
  proof (cases "truthy u \<and> toLowerCase (or_empty u) \<notin> set q")
    case True
    from Cons [of "q @ [toLowerCase (or_empty u)]"] True show ?thesis
      by (auto simp: set_add_def)
  next
    case False
    with Cons [of q] show ?thesis
      by (auto simp: set_add_def)
  qed
qed

lemma enqueue_names_absorbed:
  "\<forall>u \<in> set us. truthy u \<longrightarrow> toLowerCase (or_empty u) \<in> set q \<Longrightarrow> enqueue_names us q = q"
  by (induction us arbitrary: q) (auto simp: set_add_def)

lemma enqueue_idem: "enqueue us (enqueue us e) = enqueue us e"
proof -
  have "\<forall>u \<in> set us. truthy u \<longrightarrow> toLowerCase (or_empty u) \<in> set (enqueue_names us (queue e))"
    by (auto simp: set_enqueue_names)
  then show ?thesis
    by (simp add: enqueue_def enqueue_names_absorbed)
qed

lemma fold_set_delete: "fold set_delete xs q = filter (\<lambda>y. y \<notin> set xs) q"
  by (induction xs arbitrary: q) (auto simp: set_delete_def intro: filter_cong)

lemma filter_out_prefix:
  "set xs \<inter> set ys = {} \<Longrightarrow> filter (\<lambda>y. y \<notin> set xs) (xs @ ys) = ys"
  by (auto simp: filter_empty_conv filter_id_conv)

lemma delete_batch: "distinct q \<Longrightarrow> fold set_delete (take n q) q = drop n q"
proof -
  assume d: "distinct q"
  then have "distinct (take n q @ drop n q)" by simp
  then have "set (take n q) \<inter> set (drop n q) = {}"
    by (simp only: distinct_append)
  from filter_out_prefix [OF this] show ?thesis
    by (simp add: fold_set_delete)
qed

lemma chunks_single: "logins \<noteq> [] \<Longrightarrow> length logins \<le> 100 \<Longrightarrow> chunks_from 0 logins = [logins]"
  by (simp add: chunks_from.simps [of 0] chunks_from.simps [of 100])

lemma fetchUsersByLogins_single:
  "logins \<noteq> [] \<Longrightarrow> length logins \<le> 100 \<Longrightarrow>
   fetchUsersByLogins http logins =
     (case http 0 logins of Inl err \<Rightarrow> (Inl err, [logins]) | Inr data \<Rightarrow> (Inr data, [logins]))"
  by (simp add: fetchUsersByLogins_def chunks_single split: sum.splits)

lemma running_enqueue [simp]: "running (enqueue us e) = running e"
  by (simp add: enqueue_def)

lemma queue_enqueue: "queue (enqueue us e) = enqueue_names us (queue e)"
  by (simp add: enqueue_def)

lemma enqueue_names_append:
  "enqueue_names (xs @ ys) q = enqueue_names ys (enqueue_names xs q)"
  by (induction xs arbitrary: q) simp_all

lemma enqueue_append: "enqueue (xs @ ys) e = enqueue ys (enqueue xs e)"
  by (simp add: enqueue_def enqueue_names_append)

lemma enqueue_nothing [simp]: "enqueue [] e = e"
  by (simp add: enqueue_def)

text \<open>While the flag is set, a \<open>drain\<close> entered by another task does nothing: the tasks
  that run at an \<open>await\<close> only enqueue.\<close>

lemma run_tasks_running: "running e \<Longrightarrow> run_tasks ts e = enqueue (enqueued ts) e"
proof (induction ts arbitrary: e)
  case Nil
  then show ?case by simp
next
  case (Cons t ts)
  show ?case
  proof (cases t)
    case (Enqueue us)
    from Cons.prems have "running (enqueue us e)" by simp
    from Cons.IH [OF this] Enqueue show ?thesis
      by (simp add: enqueue_append)
  next
    case Enter_drain
    from Cons.prems have "drain_enter e = e" by (simp add: drain_enter_def)
    with Cons.IH [OF Cons.prems] Enter_drain show ?thesis
      by simp
  qed
qed

lemma drain_users_tasks:
  "running e \<Longrightarrow> drain_users api env i us e st = (err, e', st') \<Longrightarrow>
   \<exists>n \<le> length us.
      e' = enqueue (concat (map (\<lambda>k. enqueued (during_followers env k)) [i..<i + n])) e
    \<and> (err = None \<longrightarrow> n = length us)"
proof (induction us arbitrary: i e st)
  case Nil
  then show ?case by simp
next
  case (Cons u us)
  let ?f = "\<lambda>k. enqueued (during_followers env k)"
  obtain x st1 where sv: "api_saveUserProfile api
      (make_profile u (follower_count_of env i u) (save_clock env i)) st = (x, st1)"
    by (cases "api_saveUserProfile api (make_profile u (follower_count_of env i u) (save_clock env i)) st")
  let ?e1 = "enqueue (?f i) e"
  have e1: "run_tasks (during_followers env i) e = ?e1"
    using Cons.prems(1) by (rule run_tasks_running)
  have r1: "running ?e1"
    using Cons.prems(1) by simp
  show ?case
  proof (cases x)
    case (Some y)
    with Cons.prems(2) sv e1 have "e' = ?e1" "err = Some y"
      by (simp_all add: Let_def)
    then have "e' = enqueue (concat (map ?f [i..<i + 1])) e \<and> (err = None \<longrightarrow> 1 = length (u # us))"
      by simp
    moreover have "1 \<le> length (u # us)" by simp
    ultimately show ?thesis by blast
  next
    case None
    with Cons.prems(2) sv e1 have "drain_users api env (i + 1) us ?e1 st1 = (err, e', st')"
      by (simp add: Let_def)
    from Cons.IH [OF r1 this] obtain n where n: "n \<le> length us"
      and e': "e' = enqueue (concat (map ?f [i + 1..<i + 1 + n])) ?e1"
      and c: "err = None \<longrightarrow> n = length us"
      by blast
    have "[i..<i + (n + 1)] = i # [i + 1..<i + 1 + n]"
      by (simp add: upt_conv_Cons)
    then have "e' = enqueue (concat (map ?f [i..<i + (n + 1)])) e"
      using e' by (simp add: enqueue_append)
    moreover have "n + 1 \<le> length (u # us)" "err = None \<longrightarrow> n + 1 = length (u # us)"
      using n c by simp_all
    ultimately show ?thesis by blast
  qed
qed

lemma drain_users_createStore:
  "drain_users createStore env i us e st = (err, e', st') \<Longrightarrow>
   err = None \<and> st' = foldl (\<lambda>s p. saveUserProfile p s) st (saved_profiles env i us)"
  by (induction us arbitrary: i e st) (auto simp: Let_def createStore_def)

lemma length_saved_profiles [simp]: "length (saved_profiles env i us) = length us"
  by (induction us arbitrary: i) auto

lemma nth_saved_profiles:
  "j < length us \<Longrightarrow>
   saved_profiles env i us ! j =
     make_profile (us ! j) (follower_count_of env (i + j) (us ! j)) (save_clock env (i + j))"
proof (induction us arbitrary: i j)
  case Nil
  then show ?case by simp
next
  case (Cons u us)
  show ?case
  proof (cases j)
    case 0
    then show ?thesis by simp
  next
    case (Suc k)
    with Cons.prems have "k < length us" by simp
    from Cons.IH [OF this, of "i + 1"] Suc show ?thesis by simp
  qed
qed

lemma users_table_foldl:
  "users_table (foldl (\<lambda>s p. saveUserProfile p s) st ps) =
     foldl (\<lambda>m p. m(p_username p \<mapsto> p)) (users_table st) ps"
  by (induction ps arbitrary: st) (auto simp: saveUserProfile_def)

lemma other_tables_foldl:
  "events (foldl (\<lambda>s p. saveUserProfile p s) st ps) = events st
   \<and> sessions (foldl (\<lambda>s p. saveUserProfile p s) st ps) = sessions st"
  by (induction ps arbitrary: st) (auto simp: saveUserProfile_def)

lemma upserts_last_wins:
  "j < length ps \<Longrightarrow> \<forall>k. j < k \<and> k < length ps \<longrightarrow> p_username (ps ! k) \<noteq> p_username (ps ! j) \<Longrightarrow>
   foldl (\<lambda>m p. m(p_username p \<mapsto> p)) m ps (p_username (ps ! j)) = Some (ps ! j)"
proof (induction ps arbitrary: m rule: rev_induct)
  case Nil
  then show ?case by simp
next
  case (snoc p ps)
  show ?case
  proof (cases "j < length ps")
    case True
    with snoc.prems have ne: "p_username p \<noteq> p_username (ps ! j)"
      by (auto simp: nth_append dest: spec [of _ "length ps"])
    have "\<forall>k. j < k \<and> k < length ps \<longrightarrow> p_username (ps ! k) \<noteq> p_username (ps ! j)"
      using snoc.prems(2) True by (auto simp: nth_append split: if_splits)
    from snoc.IH [OF True this, of m] ne True show ?thesis
      by (simp add: nth_append)
  next
    case False
    with snoc.prems have "j = length ps" by simp
    then show ?thesis by simp
  qed
qed

lemma drain_skip:
  "running e \<or> queue e = [] \<Longrightarrow> drain api env e st = (None, e, st, [])"
  by (simp add: drain_def)

lemma drain_begin_props:
  "running (fst (drain_begin e)) \<and> snd (drain_begin e) = take 50 (queue e)
   \<and> (distinct (queue e) \<longrightarrow> queue (fst (drain_begin e)) = drop 50 (queue e))"
  by (simp add: drain_begin_def Let_def delete_batch)

lemma drain_sent:
  assumes "\<not> running e" "queue e \<noteq> []" "drain api env e st = (err, e', st', sent)"
  shows "sent = [take 50 (queue e)]"
proof -
  have b: "take 50 (queue e) \<noteq> []" "length (take 50 (queue e)) \<le> 100"
    using assms(2) by simp_all
  from fetchUsersByLogins_single [OF b, of "users_http env"]
  have "snd (fetchUsersByLogins (users_http env) (take 50 (queue e))) = [take 50 (queue e)]"
    by (simp split: sum.splits)
  with assms show ?thesis
    by (auto simp: drain_def drain_begin_def Let_def split: prod.splits sum.splits)
qed

lemma drain_result:
  assumes "\<not> running e" "queue e \<noteq> []" "drain api env e st = (err, e', st', sent)"
  shows "\<not> running e'
     \<and> (\<forall>x. fst (fetchUsersByLogins (users_http env) (take 50 (queue e))) = Inl x \<longrightarrow>
            err = Some x \<and> st' = st
          \<and> queue e' = enqueue_names (enqueued (during_users env)) (queue (fst (drain_begin e))))
     \<and> (\<forall>users. fst (fetchUsersByLogins (users_http env) (take 50 (queue e))) = Inr users \<longrightarrow>
            (\<exists>n \<le> length users.
                queue e' = enqueue_names (arrivals env n) (queue (fst (drain_begin e)))
              \<and> (err = None \<longrightarrow> n = length users)))"
proof -
  obtain e1 batch where b: "drain_begin e = (e1, batch)"
    by (cases "drain_begin e")
  then have batch: "batch = take 50 (queue e)" and r1: "running e1"
    by (auto simp: drain_begin_def Let_def)
  obtain res snt where f: "fetchUsersByLogins (users_http env) batch = (res, snt)"
    by (cases "fetchUsersByLogins (users_http env) batch")
  let ?e2 = "enqueue (enqueued (during_users env)) e1"
  have e2: "run_tasks (during_users env) e1 = ?e2"
    using r1 by (rule run_tasks_running)
  have r2: "running ?e2"
    using r1 by simp
  show ?thesis
  proof (cases res)
    case (Inl x)
    with assms b f e2 have "err = Some x" "e' = ?e2\<lparr>running := False\<rparr>" "st' = st"
      by (simp_all add: drain_def)
    with b f Inl batch show ?thesis by (simp add: queue_enqueue)
  next
    case (Inr users)
    obtain err2 e3 st1 where du: "drain_users api env 0 users ?e2 st = (err2, e3, st1)"
      by (cases "drain_users api env 0 users ?e2 st")
    with assms b f e2 Inr have r: "err = err2" "e' = e3\<lparr>running := False\<rparr>" "st' = st1"
      by (simp_all add: drain_def)
    from drain_users_tasks [OF r2 du] obtain n where n: "n \<le> length users"
      and e3: "e3 = enqueue (concat (map (\<lambda>k. enqueued (during_followers env k)) [0..<0 + n])) ?e2"
      and c: "err2 = None \<longrightarrow> n = length users"
      by blast
    have "queue e' = enqueue_names (arrivals env n) (queue e1)"
      using r(2) e3 by (simp add: arrivals_def queue_enqueue enqueue_names_append)
    with n c r(1) have "\<exists>n \<le> length users.
          queue e' = enqueue_names (arrivals env n) (queue e1) \<and> (err = None \<longrightarrow> n = length users)"
      by blast
    with r b f Inr batch show ?thesis
      by simp
  qed
qed

lemma drain_keeps_rest:
  assumes "\<not> running e" "queue e \<noteq> []" "drain api env e st = (err, e', st', sent)"
  shows "set (queue (fst (drain_begin e))) \<subseteq> set (queue e')"
proof (cases "fst (fetchUsersByLogins (users_http env) (take 50 (queue e)))")
  case (Inl x)
  with drain_result [OF assms] show ?thesis
    by (auto simp: set_enqueue_names)
next
  case (Inr users)
  with drain_result [OF assms] show ?thesis
    by (auto simp: set_enqueue_names)
qed

text \<open>
  C7. A drain that finds the flag set or the queue empty returns at once: nothing is
  sent and nothing changes. Otherwise it sends one profile lookup, for the first (at
  most 50) pending names, and on every way out the flag is clear. Whatever other tasks
  did while it waited, the queue afterwards is the pending names beyond the batch,
  followed by the names that those tasks enqueued, in order and without duplicates: the
  batch was deleted before the lookup, and every \<open>drain\<close> entered by another task during
  the wait found the flag set and took nothing. This holds when the lookup throws (the
  error escapes, the store is untouched) and when it is answered (with the arrivals of
  the follower lookups made: all of them when nothing is thrown). Every truthy name
  enqueued during the profile lookup is pending afterwards, and the next drain sends a
  lookup for the first pending names.
\<close>

theorem drain_guarded_and_released:
  assumes d: "distinct (queue e)"
    and run: "drain api env e st = (err, e', st', sent)"
  shows "(running e \<or> queue e = [] \<longrightarrow> err = None \<and> e' = e \<and> st' = st \<and> sent = [])
       \<and> (\<not> running e \<and> queue e \<noteq> [] \<longrightarrow>
             sent = [take 50 (queue e)]
           \<and> \<not> running e'
           \<and> (\<forall>x. fst (fetchUsersByLogins (users_http env) (take 50 (queue e))) = Inl x \<longrightarrow>
                  err = Some x \<and> st' = st
                \<and> queue e' = enqueue_names (enqueued (during_users env)) (drop 50 (queue e)))
           \<and> (\<forall>users. fst (fetchUsersByLogins (users_http env) (take 50 (queue e))) = Inr users \<longrightarrow>
                  (\<exists>n \<le> length users.
                      queue e' = enqueue_names (arrivals env n) (drop 50 (queue e))
                    \<and> (err = None \<longrightarrow> n = length users)))
           \<and> (\<forall>u \<in> set (enqueued (during_users env)).
                  truthy u \<longrightarrow> toLowerCase (or_empty u) \<in> set (queue e'))
           \<and> (queue e' \<noteq> [] \<longrightarrow>
                  (\<forall>env2 st2. snd (snd (snd (drain api env2 e' st2))) = [take 50 (queue e')])))"
proof (cases "running e \<or> queue e = []")
  case True
  with run drain_skip [OF True, of api env st] show ?thesis
    by auto
next
  case False
  then have nr: "\<not> running e" and ne: "queue e \<noteq> []"
    by simp_all
  from drain_begin_props [of e] d
  have b: "queue (fst (drain_begin e)) = drop 50 (queue e)"
    by simp
  note s = drain_sent [OF nr ne run]
  note r = drain_result [OF nr ne run, unfolded b]
  from r have r1: "\<not> running e'"
    and r2: "\<forall>x. fst (fetchUsersByLogins (users_http env) (take 50 (queue e))) = Inl x \<longrightarrow>
                  err = Some x \<and> st' = st
                \<and> queue e' = enqueue_names (enqueued (during_users env)) (drop 50 (queue e))"
    and r3: "\<forall>users. fst (fetchUsersByLogins (users_http env) (take 50 (queue e))) = Inr users \<longrightarrow>
                  (\<exists>n \<le> length users.
                      queue e' = enqueue_names (arrivals env n) (drop 50 (queue e))
                    \<and> (err = None \<longrightarrow> n = length users))"
    by simp_all
  have r4: "\<forall>u \<in> set (enqueued (during_users env)).
                  truthy u \<longrightarrow> toLowerCase (or_empty u) \<in> set (queue e')"
  proof (cases "fst (fetchUsersByLogins (users_http env) (take 50 (queue e)))")
    case (Inl x)
    with r2 show ?thesis by (auto simp: set_enqueue_names)
  next
    case (Inr users)
    with r3 show ?thesis by (auto simp: set_enqueue_names arrivals_def)
  qed
  have r5: "queue e' \<noteq> [] \<longrightarrow>
      (\<forall>env2 st2. snd (snd (snd (drain api env2 e' st2))) = [take 50 (queue e')])"
  proof (intro impI allI)
    fix env2 st2
    assume q: "queue e' \<noteq> []"
    let ?r = "drain api env2 e' st2"
    have "?r = (fst ?r, fst (snd ?r), fst (snd (snd ?r)), snd (snd (snd ?r)))"
      by simp
    from drain_sent [OF r1 q this] show "snd (snd (snd ?r)) = [take 50 (queue e')]" .
  qed
  show ?thesis
  proof (intro conjI impI)
    assume "running e \<or> queue e = []"
    with False show "err = None" "e' = e" "st' = st" "sent = []" by simp_all
  next
    show "sent = [take 50 (queue e)]" by (rule s)
  next
    show "\<not> running e'" by (rule r1)
  next
    show "\<forall>x. fst (fetchUsersByLogins (users_http env) (take 50 (queue e))) = Inl x \<longrightarrow>
                  err = Some x \<and> st' = st
                \<and> queue e' = enqueue_names (enqueued (during_users env)) (drop 50 (queue e))"
      by (rule r2)
  next
    show "\<forall>users. fst (fetchUsersByLogins (users_http env) (take 50 (queue e))) = Inr users \<longrightarrow>
                  (\<exists>n \<le> length users.
                      queue e' = enqueue_names (arrivals env n) (drop 50 (queue e))
                    \<and> (err = None \<longrightarrow> n = length users))"
      by (rule r3)
  next
    show "\<forall>u \<in> set (enqueued (during_users env)).
                  truthy u \<longrightarrow> toLowerCase (or_empty u) \<in> set (queue e')"
      by (rule r4)
  next
    assume "queue e' \<noteq> []"
    with r5 show "\<forall>env2 st2. snd (snd (snd (drain api env2 e' st2))) = [take 50 (queue e')]"
      by simp
  qed
qed

lemmas demo_drain_simps =
  drain_def drain_begin_def drain_enter_def demo_enricher_def failing_drain_env_def demo_drain_env_def
  fetchUsersByLogins_def chunks_from.simps [of 0] chunks_from.simps [of 100]
  enqueue_def set_add_def set_delete_def truthy_def or_empty_def plain_error_def Let_def

lemma lower_dee: "toLowerCase ''Dee'' = ''dee''" "toLowerCase ''Eve'' = ''eve''"
  by code_simp+

lemma distinct_fifty_names: "distinct fifty_names"
  by (simp add: fifty_names_def distinct_map inj_on_def)

lemma zed_not_fifty: "''zed'' \<notin> set fifty_names"
  by (auto simp: fifty_names_def)

lemma lower_zed: "toLowerCase ''zed'' = ''zed''"
  by code_simp

lemma queue_full_zed:
  "queue (enqueue [Some ''zed'', Some ''zed''] full_enricher) = fifty_names @ [''zed'']"
  using zed_not_fifty
  by (simp add: enqueue_def full_enricher_def truthy_def or_empty_def set_add_def lower_zed)

text \<open>A drain whose profile lookup throws and one whose lookup is answered, both with a
  \<open>drain\<close> entered meanwhile: the flag is clear afterwards, the batch is gone from the
  queue, and the names enqueued meanwhile are pending. Behind fifty pending names,
  \<open>zed\<close> stays pending.\<close>

theorem drain_guarded_and_released_witness:
  "distinct (queue demo_enricher)
   \<and> drain createStore failing_drain_env demo_enricher empty_store =
       (Some (plain_error ''down''), \<lparr>queue = [''dee''], running = False\<rparr>, empty_store,
        [[''ann'', ''bea'', ''cy'']])
   \<and> fst (drain createStore demo_drain_env demo_enricher empty_store) = None
   \<and> fst (snd (drain createStore demo_drain_env demo_enricher empty_store))
       = \<lparr>queue = [''dee'', ''eve''], running = False\<rparr>
   \<and> snd (snd (snd (drain createStore demo_drain_env demo_enricher empty_store)))
       = [[''ann'', ''bea'', ''cy'']]
   \<and> queue (fst (snd (drain createStore failing_drain_env
         (enqueue [Some ''zed'', Some ''zed''] full_enricher) empty_store))) = [''zed'', ''dee'']
   \<and> \<not> running (fst (snd (drain createStore failing_drain_env
         (enqueue [Some ''zed'', Some ''zed''] full_enricher) empty_store)))
   \<and> snd (snd (snd (drain createStore failing_drain_env
         (enqueue [Some ''zed'', Some ''zed''] full_enricher) empty_store))) = [fifty_names]"
proof -
  let ?users = "[demo_user ''1'' ''Ann'', demo_user ''2'' ''bea'', demo_user ''3'' ''cy'']"
  let ?r2 = "drain createStore demo_drain_env demo_enricher empty_store"
  let ?e3 = "enqueue [Some ''zed'', Some ''zed''] full_enricher"
  let ?r3 = "drain createStore failing_drain_env ?e3 empty_store"
  have d: "distinct (queue demo_enricher)"
    by (simp add: demo_enricher_def)
  have q: "\<not> running demo_enricher \<and> queue demo_enricher \<noteq> []" "drop 50 (queue demo_enricher) = []"
    "take 50 (queue demo_enricher) = [''ann'', ''bea'', ''cy'']"
    by (simp_all add: demo_enricher_def)
  have v: "drain createStore failing_drain_env demo_enricher empty_store =
       (Some (plain_error ''down''), \<lparr>queue = [''dee''], running = False\<rparr>, empty_store,
        [[''ann'', ''bea'', ''cy'']])"
    by (simp add: demo_drain_simps lower_dee)
  note t1 = drain_guarded_and_released [OF d v, THEN conjunct2, rule_format, OF q(1)]

  have r2: "?r2 = (fst ?r2, fst (snd ?r2), fst (snd (snd ?r2)), snd (snd (snd ?r2)))"
    by simp
  have f2: "fst (fetchUsersByLogins (users_http demo_drain_env) (take 50 (queue demo_enricher))) = Inr ?users"
    by (simp add: demo_drain_simps)
  have n2: "fst ?r2 = None"
    by (simp add: demo_drain_simps createStore_def)
  have a2: "arrivals demo_drain_env 3 = [Some ''Dee'', None, Some ''Eve'']"
    by (simp add: arrivals_def demo_drain_env_def upt_rec [of 0] upt_rec [of 1] upt_rec [of 2]
          upt_rec [of "Suc 0"] numeral_3_eq_3 numeral_2_eq_2)
  note t2 = drain_guarded_and_released [OF d r2, THEN conjunct2, rule_format, OF q(1)]
  from t2 [THEN conjunct2, THEN conjunct2, THEN conjunct2, THEN conjunct1, rule_format, OF f2] n2
  have "queue (fst (snd ?r2)) = enqueue_names (arrivals demo_drain_env 3) (drop 50 (queue demo_enricher))"
    by (auto simp: numeral_3_eq_3)
  then have q2: "queue (fst (snd ?r2)) = [''dee'', ''eve'']"
    by (simp add: a2 q(2) truthy_def or_empty_def set_add_def lower_dee)
  have nr2: "\<not> running (fst (snd ?r2))"
    using t2 [THEN conjunct2, THEN conjunct1] .
  have e2: "fst (snd ?r2) = \<lparr>queue = [''dee'', ''eve''], running = False\<rparr>"
    using q2 nr2 by (cases "fst (snd ?r2)") simp
  have s2: "snd (snd (snd ?r2)) = [[''ann'', ''bea'', ''cy'']]"
    using t2 [THEN conjunct1] by (simp add: q(3))

  have len: "length fifty_names = 50"
    by (simp add: fifty_names_def)
  have d3: "distinct (queue ?e3)"
    using zed_not_fifty distinct_fifty_names by (simp add: queue_full_zed)
  have h3: "\<not> running ?e3 \<and> queue ?e3 \<noteq> []"
    by (simp add: queue_full_zed) (simp add: full_enricher_def)
  have tk: "take 50 (queue ?e3) = fifty_names" "drop 50 (queue ?e3) = [''zed'']"
    using len by (simp_all add: queue_full_zed)
  have ne: "fifty_names \<noteq> []" "length fifty_names \<le> 100"
    using len by auto
  have f3: "fst (fetchUsersByLogins (users_http failing_drain_env) (take 50 (queue ?e3)))
      = Inl (plain_error ''down'')"
    unfolding tk fetchUsersByLogins_single [OF ne]
    by (simp add: failing_drain_env_def)
  have r3: "?r3 = (fst ?r3, fst (snd ?r3), fst (snd (snd ?r3)), snd (snd (snd ?r3)))"
    by simp
  note t3 = drain_guarded_and_released [OF d3 r3, THEN conjunct2, rule_format, OF h3]
  from t3 [THEN conjunct2, THEN conjunct2, THEN conjunct1, rule_format, OF f3]
  have "queue (fst (snd ?r3)) =
      enqueue_names (enqueued (during_users failing_drain_env)) (drop 50 (queue ?e3))"
    by simp
  then have q3: "queue (fst (snd ?r3)) = [''zed'', ''dee'']"
    unfolding tk
    by (simp add: failing_drain_env_def demo_drain_env_def truthy_def or_empty_def set_add_def lower_dee)
  have nr3: "\<not> running (fst (snd ?r3))"
    using t3 [THEN conjunct2, THEN conjunct1] .
  have s3: "snd (snd (snd ?r3)) = [fifty_names]"
    using t3 [THEN conjunct1] by (simp add: tk)
  from d v n2 e2 s2 q3 nr3 s3 show ?thesis
    by simp
qed

text \<open>
  C8. In a drain over the SQLite store whose profile lookup resolved the list \<open>users\<close>,
  nothing is thrown and the profile table is the old one updated, in order, with one
  profile per resolved user; the other tables are untouched. The \<open>j\<close>-th profile has
  the lowercased login, the id, display name, broadcaster type and image URL of the
  \<open>j\<close>-th user (null for a falsy one), the clock of its save, and as follower count the
  answer of the \<open>j\<close>-th follower lookup, or null when that lookup threw: no other
  lookup enters it, and a lookup that throws changes no other column. Unless a later
  resolved user has the same lowercased login, the table maps the login to exactly that
  profile.
\<close>

theorem drain_follower_failure_isolated:
  assumes nr: "\<not> running e" and ne: "queue e \<noteq> []"
    and ok: "fst (fetchUsersByLogins (users_http env) (take 50 (queue e))) = Inr users"
    and run: "drain createStore env e st = (err, e', st', sent)"
  shows "err = None
       \<and> users_table st' =
           foldl (\<lambda>m p. m(p_username p \<mapsto> p)) (users_table st) (saved_profiles env 0 users)
       \<and> events st' = events st \<and> sessions st' = sessions st
       \<and> length (saved_profiles env 0 users) = length users
       \<and> (\<forall>j < length users.
             saved_profiles env 0 users ! j =
               \<lparr>p_username = toLowerCase (or_empty (tu_login (users ! j))),
                p_user_id = (if truthy (tu_id (users ! j)) then tu_id (users ! j) else None),
                p_display_name =
                  (if truthy (tu_display_name (users ! j)) then tu_display_name (users ! j) else None),
                p_broadcaster_type =
                  (if truthy (tu_broadcaster_type (users ! j)) then tu_broadcaster_type (users ! j)
                   else None),
                p_follower_count =
                  (case followers_http env j (tu_id (users ! j)) of Inl x \<Rightarrow> None | Inr n \<Rightarrow> n),
                p_profile_image_url =
                  (if truthy (tu_profile_image_url (users ! j)) then tu_profile_image_url (users ! j)
                   else None),
                p_updated_at = save_clock env j\<rparr>
           \<and> ((\<exists>x. followers_http env j (tu_id (users ! j)) = Inl x) \<longrightarrow>
                 p_follower_count (saved_profiles env 0 users ! j) = None)
           \<and> (\<forall>n. followers_http env j (tu_id (users ! j)) = Inr n \<longrightarrow>
                 p_follower_count (saved_profiles env 0 users ! j) = n)
           \<and> ((\<forall>k. j < k \<and> k < length users \<longrightarrow>
                   toLowerCase (or_empty (tu_login (users ! k))) \<noteq>
                   toLowerCase (or_empty (tu_login (users ! j)))) \<longrightarrow>
                 users_table st' (toLowerCase (or_empty (tu_login (users ! j)))) =
                   Some (saved_profiles env 0 users ! j)))"
proof -
  let ?ps = "saved_profiles env 0 users"
  obtain e1 batch where b: "drain_begin e = (e1, batch)"
    by (cases "drain_begin e")
  then have batch: "batch = take 50 (queue e)"
    by (auto simp: drain_begin_def Let_def)
  obtain snt where f: "fetchUsersByLogins (users_http env) batch = (Inr users, snt)"
    using ok batch by (cases "fetchUsersByLogins (users_http env) batch") simp
  let ?e2 = "run_tasks (during_users env) e1"
  obtain err2 e3 st1 where du: "drain_users createStore env 0 users ?e2 st = (err2, e3, st1)"
    by (cases "drain_users createStore env 0 users ?e2 st")
  from run nr ne b f du have r: "err = err2" "st' = st1"
    by (simp_all add: drain_def)
  from drain_users_createStore [OF du] r
  have e: "err = None" and st: "st' = foldl (\<lambda>s p. saveUserProfile p s) st ?ps"
    by simp_all
  have tbl: "users_table st' = foldl (\<lambda>m p. m(p_username p \<mapsto> p)) (users_table st) ?ps"
    by (simp add: st users_table_foldl)
  have oth: "events st' = events st" "sessions st' = sessions st"
    by (simp_all add: st other_tables_foldl)
  have nth: "?ps ! j =
               \<lparr>p_username = toLowerCase (or_empty (tu_login (users ! j))),
                p_user_id = (if truthy (tu_id (users ! j)) then tu_id (users ! j) else None),
                p_display_name =
                  (if truthy (tu_display_name (users ! j)) then tu_display_name (users ! j) else None),
                p_broadcaster_type =
                  (if truthy (tu_broadcaster_type (users ! j)) then tu_broadcaster_type (users ! j)
                   else None),
                p_follower_count =
                  (case followers_http env j (tu_id (users ! j)) of Inl x \<Rightarrow> None | Inr n \<Rightarrow> n),
                p_profile_image_url =
                  (if truthy (tu_profile_image_url (users ! j)) then tu_profile_image_url (users ! j)
                   else None),
                p_updated_at = save_clock env j\<rparr>" if "j < length users" for j
    using nth_saved_profiles [OF that, of env 0]
    by (simp add: follower_count_of_def make_profile_def or_null_def)
  have nm: "p_username (?ps ! j) = toLowerCase (or_empty (tu_login (users ! j)))"
    if "j < length users" for j
    using nth [OF that] by simp
  have fc: "p_follower_count (?ps ! j) = None"
    if "j < length users" "\<exists>x. followers_http env j (tu_id (users ! j)) = Inl x" for j
    using nth [OF that(1)] that(2) by auto
  have fs: "p_follower_count (?ps ! j) = n"
    if "j < length users" "followers_http env j (tu_id (users ! j)) = Inr n" for j n
    using nth [OF that(1)] that(2) by simp
  have row: "users_table st' (toLowerCase (or_empty (tu_login (users ! j)))) = Some (?ps ! j)"
    if j: "j < length users"
      and later: "\<forall>k. j < k \<and> k < length users \<longrightarrow>
                   toLowerCase (or_empty (tu_login (users ! k))) \<noteq>
                   toLowerCase (or_empty (tu_login (users ! j)))" for j
  proof -
    have "\<forall>k. j < k \<and> k < length ?ps \<longrightarrow> p_username (?ps ! k) \<noteq> p_username (?ps ! j)"
      using later j by (simp add: nm)
    from upserts_last_wins [OF _ this, of "users_table st"] j
    show ?thesis by (simp add: tbl nm)
  qed
  have each: "\<forall>j < length users.
             ?ps ! j =
               \<lparr>p_username = toLowerCase (or_empty (tu_login (users ! j))),
                p_user_id = (if truthy (tu_id (users ! j)) then tu_id (users ! j) else None),
                p_display_name =
                  (if truthy (tu_display_name (users ! j)) then tu_display_name (users ! j) else None),
                p_broadcaster_type =
                  (if truthy (tu_broadcaster_type (users ! j)) then tu_broadcaster_type (users ! j)
                   else None),
                p_follower_count =
                  (case followers_http env j (tu_id (users ! j)) of Inl x \<Rightarrow> None | Inr n \<Rightarrow> n),
                p_profile_image_url =
                  (if truthy (tu_profile_image_url (users ! j)) then tu_profile_image_url (users ! j)
                   else None),
                p_updated_at = save_clock env j\<rparr>
           \<and> ((\<exists>x. followers_http env j (tu_id (users ! j)) = Inl x) \<longrightarrow>
                 p_follower_count (?ps ! j) = None)
           \<and> (\<forall>n. followers_http env j (tu_id (users ! j)) = Inr n \<longrightarrow>
                 p_follower_count (?ps ! j) = n)
           \<and> ((\<forall>k. j < k \<and> k < length users \<longrightarrow>
                   toLowerCase (or_empty (tu_login (users ! k))) \<noteq>
                   toLowerCase (or_empty (tu_login (users ! j)))) \<longrightarrow>
                 users_table st' (toLowerCase (or_empty (tu_login (users ! j)))) = Some (?ps ! j))"
  proof (intro allI impI)
    fix j assume j: "j < length users"
    show "?ps ! j =
               \<lparr>p_username = toLowerCase (or_empty (tu_login (users ! j))),
                p_user_id = (if truthy (tu_id (users ! j)) then tu_id (users ! j) else None),
                p_display_name =
                  (if truthy (tu_display_name (users ! j)) then tu_display_name (users ! j) else None),
                p_broadcaster_type =
                  (if truthy (tu_broadcaster_type (users ! j)) then tu_broadcaster_type (users ! j)
                   else None),
                p_follower_count =
                  (case followers_http env j (tu_id (users ! j)) of Inl x \<Rightarrow> None | Inr n \<Rightarrow> n),
                p_profile_image_url =
                  (if truthy (tu_profile_image_url (users ! j)) then tu_profile_image_url (users ! j)
                   else None),
                p_updated_at = save_clock env j\<rparr>
           \<and> ((\<exists>x. followers_http env j (tu_id (users ! j)) = Inl x) \<longrightarrow>
                 p_follower_count (?ps ! j) = None)
           \<and> (\<forall>n. followers_http env j (tu_id (users ! j)) = Inr n \<longrightarrow>
                 p_follower_count (?ps ! j) = n)
           \<and> ((\<forall>k. j < k \<and> k < length users \<longrightarrow>
                   toLowerCase (or_empty (tu_login (users ! k))) \<noteq>
                   toLowerCase (or_empty (tu_login (users ! j)))) \<longrightarrow>
                 users_table st' (toLowerCase (or_empty (tu_login (users ! j)))) = Some (?ps ! j))"
      using nth [OF j] fc [OF j] fs [OF j] row [OF j] by blast
  qed
  have len: "length ?ps = length users"
    by simp
  show ?thesis
    by (rule conjI, rule e, rule conjI, rule tbl, rule conjI, rule oth(1), rule conjI, rule oth(2),
        rule conjI, rule len, rule each)
qed

lemma lower_demo_names:
  "toLowerCase ''Ann'' = ''ann''" "toLowerCase ''bea'' = ''bea''" "toLowerCase ''cy'' = ''cy''"
  by code_simp+

text \<open>Three resolved users, the follower lookup of the second throws: three rows, the
  second with a null follower count, the first and the third with the counts that their
  lookups returned, and every other column as resolved.\<close>

theorem drain_follower_failure_isolated_witness:
  "\<not> running demo_enricher \<and> queue demo_enricher \<noteq> []
   \<and> fst (fetchUsersByLogins (users_http demo_drain_env) (take 50 (queue demo_enricher))) =
       Inr [demo_user ''1'' ''Ann'', demo_user ''2'' ''bea'', demo_user ''3'' ''cy'']
   \<and> followers_http demo_drain_env 0 (Some ''1'') = Inr (Some 0)
   \<and> followers_http demo_drain_env 1 (Some ''2'') = Inl (plain_error ''timeout'')
   \<and> followers_http demo_drain_env 2 (Some ''3'') = Inr (Some 20)
   \<and> fst (drain createStore demo_drain_env demo_enricher empty_store) = None
   \<and> users_table (fst (snd (snd (drain createStore demo_drain_env demo_enricher empty_store)))) ''ann''
       = Some \<lparr>p_username = ''ann'', p_user_id = Some ''1'', p_display_name = Some ''Ann'',
               p_broadcaster_type = None, p_follower_count = Some 0,
               p_profile_image_url = None, p_updated_at = 7000\<rparr>
   \<and> users_table (fst (snd (snd (drain createStore demo_drain_env demo_enricher empty_store)))) ''bea''
       = Some \<lparr>p_username = ''bea'', p_user_id = Some ''2'', p_display_name = Some ''bea'',
               p_broadcaster_type = None, p_follower_count = None,
               p_profile_image_url = None, p_updated_at = 7001\<rparr>
   \<and> users_table (fst (snd (snd (drain createStore demo_drain_env demo_enricher empty_store)))) ''cy''
       = Some \<lparr>p_username = ''cy'', p_user_id = Some ''3'', p_display_name = Some ''cy'',
               p_broadcaster_type = None, p_follower_count = Some 20,
               p_profile_image_url = None, p_updated_at = 7002\<rparr>"
proof -
  let ?users = "[demo_user ''1'' ''Ann'', demo_user ''2'' ''bea'', demo_user ''3'' ''cy'']"
  let ?r = "drain createStore demo_drain_env demo_enricher empty_store"
  let ?ps = "saved_profiles demo_drain_env 0 ?users"
  have h: "\<not> running demo_enricher" "queue demo_enricher \<noteq> []"
    by (simp_all add: demo_enricher_def)
  have f: "fst (fetchUsersByLogins (users_http demo_drain_env) (take 50 (queue demo_enricher))) = Inr ?users"
    by (simp add: demo_drain_simps)
  have x: "followers_http demo_drain_env 0 (Some ''1'') = Inr (Some 0)"
    "followers_http demo_drain_env 1 (Some ''2'') = Inl (plain_error ''timeout'')"
    "followers_http demo_drain_env 2 (Some ''3'') = Inr (Some 20)"
    by (simp_all add: demo_drain_env_def)
  have r: "?r = (fst ?r, fst (snd ?r), fst (snd (snd ?r)), snd (snd (snd ?r)))"
    by simp
  note t = drain_follower_failure_isolated [OF h f r]
  note each = t [THEN conjunct2, THEN conjunct2, THEN conjunct2, THEN conjunct2, THEN conjunct2,
      rule_format]
  have l: "(0::nat) < length ?users" "(1::nat) < length ?users" "(2::nat) < length ?users"
    by simp_all
  have u: "?users ! 0 = demo_user ''1'' ''Ann''" "?users ! 1 = demo_user ''2'' ''bea''"
    "?users ! 2 = demo_user ''3'' ''cy''"
    by (simp_all add: numeral_2_eq_2)
  have c: "save_clock demo_drain_env 0 = 7000" "save_clock demo_drain_env 1 = 7001"
    "save_clock demo_drain_env 2 = 7002"
    by (simp_all add: demo_drain_env_def)
  let ?row = "\<lambda>j. \<lparr>p_username = toLowerCase (or_empty (tu_login (?users ! j))),
                p_user_id = (if truthy (tu_id (?users ! j)) then tu_id (?users ! j) else None),
                p_display_name =
                  (if truthy (tu_display_name (?users ! j)) then tu_display_name (?users ! j) else None),
                p_broadcaster_type =
                  (if truthy (tu_broadcaster_type (?users ! j)) then tu_broadcaster_type (?users ! j)
                   else None),
                p_follower_count =
                  (case followers_http demo_drain_env j (tu_id (?users ! j)) of
                     Inl x \<Rightarrow> None | Inr n \<Rightarrow> n),
                p_profile_image_url =
                  (if truthy (tu_profile_image_url (?users ! j)) then tu_profile_image_url (?users ! j)
                   else None),
                p_updated_at = save_clock demo_drain_env j\<rparr>"
  have "?row 0 = \<lparr>p_username = ''ann'', p_user_id = Some ''1'', p_display_name = Some ''Ann'',
               p_broadcaster_type = None, p_follower_count = Some 0,
               p_profile_image_url = None, p_updated_at = 7000\<rparr>"
    by (simp add: demo_user_def truthy_def or_empty_def lower_demo_names demo_drain_env_def)
  with each [OF l(1), THEN conjunct1]
  have p0: "?ps ! 0 = \<lparr>p_username = ''ann'', p_user_id = Some ''1'', p_display_name = Some ''Ann'',
               p_broadcaster_type = None, p_follower_count = Some 0,
               p_profile_image_url = None, p_updated_at = 7000\<rparr>"
    by (rule trans)
  have "?row 1 = \<lparr>p_username = ''bea'', p_user_id = Some ''2'', p_display_name = Some ''bea'',
               p_broadcaster_type = None, p_follower_count = None,
               p_profile_image_url = None, p_updated_at = 7001\<rparr>"
    by (simp add: demo_user_def truthy_def or_empty_def lower_demo_names demo_drain_env_def)
  with each [OF l(2), THEN conjunct1]
  have p1: "?ps ! 1 = \<lparr>p_username = ''bea'', p_user_id = Some ''2'', p_display_name = Some ''bea'',
               p_broadcaster_type = None, p_follower_count = None,
               p_profile_image_url = None, p_updated_at = 7001\<rparr>"
    by (rule trans)
  have "?row 2 = \<lparr>p_username = ''cy'', p_user_id = Some ''3'', p_display_name = Some ''cy'',
               p_broadcaster_type = None, p_follower_count = Some 20,
               p_profile_image_url = None, p_updated_at = 7002\<rparr>"
    by (simp add: demo_user_def truthy_def or_empty_def lower_demo_names demo_drain_env_def)
  with each [OF l(3), THEN conjunct1]
  have p2: "?ps ! 2 = \<lparr>p_username = ''cy'', p_user_id = Some ''3'', p_display_name = Some ''cy'',
               p_broadcaster_type = None, p_follower_count = Some 20,
               p_profile_image_url = None, p_updated_at = 7002\<rparr>"
    by (rule trans)
  have nm: "toLowerCase (or_empty (tu_login (demo_user uid ''Ann''))) = ''ann''"
    "toLowerCase (or_empty (tu_login (demo_user uid ''bea''))) = ''bea''"
    "toLowerCase (or_empty (tu_login (demo_user uid ''cy''))) = ''cy''" for uid
    by (simp_all add: demo_user_def or_empty_def lower_demo_names)
  have later0: "\<forall>k. 0 < k \<and> k < length ?users \<longrightarrow>
      toLowerCase (or_empty (tu_login (?users ! k))) \<noteq> toLowerCase (or_empty (tu_login (?users ! 0)))"
    by (auto simp: nm less_Suc_eq numeral_3_eq_3)
  have later1: "\<forall>k. 1 < k \<and> k < length ?users \<longrightarrow>
      toLowerCase (or_empty (tu_login (?users ! k))) \<noteq> toLowerCase (or_empty (tu_login (?users ! 1)))"
    by (auto simp: nm less_Suc_eq numeral_3_eq_3)
  have later2: "\<forall>k. 2 < k \<and> k < length ?users \<longrightarrow>
      toLowerCase (or_empty (tu_login (?users ! k))) \<noteq> toLowerCase (or_empty (tu_login (?users ! 2)))"
    by (auto simp: nm less_Suc_eq numeral_3_eq_3)
  have t0: "users_table (fst (snd (snd ?r))) ''ann'' = Some (?ps ! 0)"
    using each [OF l(1), THEN conjunct2, THEN conjunct2, THEN conjunct2, THEN mp, OF later0]
    unfolding u by (simp add: nm)
  have t1: "users_table (fst (snd (snd ?r))) ''bea'' = Some (?ps ! 1)"
    using each [OF l(2), THEN conjunct2, THEN conjunct2, THEN conjunct2, THEN mp, OF later1]
    unfolding u by (simp add: nm)
  have t2: "users_table (fst (snd (snd ?r))) ''cy'' = Some (?ps ! 2)"
    using each [OF l(3), THEN conjunct2, THEN conjunct2, THEN conjunct2, THEN mp, OF later2]
    unfolding u by (simp add: nm)
  from h f x t [THEN conjunct1] t0 t1 t2 show ?thesis
    unfolding p0 p1 p2 by simp
qed

lemma count_in_distinct: "distinct xs \<Longrightarrow> count_list xs a = (if a \<in> set xs then 1 else 0)"
  by (induction xs) auto

text \<open>
  C6, as amended. \<open>enqueue\<close> keeps the queue duplicate-free, adds exactly the lowercased
  truthy names and ignores the falsy ones, and enqueueing a list a second time changes
  nothing. A non-empty name of the list is afterwards pending exactly once. The next
  drain that runs (flag clear) looks the name up exactly once if it is among the first
  50 pending names; otherwise it does not look it up, and the name is still pending
  after that drain.
\<close>

theorem enqueue_idempotent_dedup:
  assumes d: "distinct (queue e)"
    and run: "drain api env (enqueue us e) st = (err, e', st', sent)"
  shows "distinct (queue (enqueue us e))
       \<and> set (queue (enqueue us e)) =
           set (queue e) \<union> {toLowerCase (or_empty u) | u. u \<in> set us \<and> truthy u}
       \<and> enqueue us (enqueue us e) = enqueue us e
       \<and> (\<forall>x. Some x \<in> set us \<and> x \<noteq> [] \<longrightarrow>
             count_list (queue (enqueue us e)) (toLowerCase x) = 1
           \<and> (\<not> running e \<longrightarrow>
                count_list (concat sent) (toLowerCase x) =
                  (if toLowerCase x \<in> set (take 50 (queue (enqueue us e))) then 1 else 0)
              \<and> (toLowerCase x \<notin> set (take 50 (queue (enqueue us e))) \<longrightarrow>
                    toLowerCase x \<in> set (queue e'))))"
proof -
  let ?q = "queue (enqueue us e)"
  have dq: "distinct ?q"
    using d by (simp add: queue_enqueue distinct_enqueue_names)
  have sq: "set ?q = set (queue e) \<union> {toLowerCase (or_empty u) | u. u \<in> set us \<and> truthy u}"
    by (simp add: queue_enqueue set_enqueue_names)
  have mem: "toLowerCase x \<in> set ?q" if "Some x \<in> set us" "x \<noteq> []" for x
  proof -
    from that have "truthy (Some x)" "toLowerCase x = toLowerCase (or_empty (Some x))"
      by (simp_all add: truthy_def or_empty_def)
    with that(1) sq show ?thesis by blast
  qed
  have one: "count_list ?q (toLowerCase x) = 1" if "Some x \<in> set us" "x \<noteq> []" for x
    using mem [OF that] dq by (simp add: count_in_distinct)
  have dr: "count_list (concat sent) (toLowerCase x) =
                  (if toLowerCase x \<in> set (take 50 ?q) then 1 else 0)
              \<and> (toLowerCase x \<notin> set (take 50 ?q) \<longrightarrow> toLowerCase x \<in> set (queue e'))"
    if nr: "\<not> running e" and x: "Some x \<in> set us" "x \<noteq> []" for x
  proof -
    have nr': "\<not> running (enqueue us e)"
      using nr by simp
    have ne: "?q \<noteq> []"
      using mem [OF x] by auto
    have s: "sent = [take 50 ?q]"
      using drain_sent [OF nr' ne run] .
    have c: "count_list (concat sent) (toLowerCase x) =
                  (if toLowerCase x \<in> set (take 50 ?q) then 1 else 0)"
      using dq by (simp add: s count_in_distinct)
    have keep: "set (drop 50 ?q) \<subseteq> set (queue e')"
      using drain_keeps_rest [OF nr' ne run] drain_begin_props [of "enqueue us e"] dq by simp
    have "toLowerCase x \<in> set (take 50 ?q) \<union> set (drop 50 ?q)"
      using mem [OF x] by (metis append_take_drop_id set_append)
    with keep have "toLowerCase x \<notin> set (take 50 ?q) \<longrightarrow> toLowerCase x \<in> set (queue e')"
      by blast
    with c show ?thesis by simp
  qed
  have both: "\<forall>x. Some x \<in> set us \<and> x \<noteq> [] \<longrightarrow>
             count_list ?q (toLowerCase x) = 1
           \<and> (\<not> running e \<longrightarrow>
                count_list (concat sent) (toLowerCase x) =
                  (if toLowerCase x \<in> set (take 50 ?q) then 1 else 0)
              \<and> (toLowerCase x \<notin> set (take 50 ?q) \<longrightarrow> toLowerCase x \<in> set (queue e')))"
    using one dr by blast
  show ?thesis
    by (rule conjI, rule dq, rule conjI, rule sq, rule conjI, rule enqueue_idem, rule both)
qed

theorem enqueue_idempotent_dedup_witness:
  "distinct (queue demo_enricher)
   \<and> queue (enqueue [Some ''Dee'', None, Some [], Some ''DEE'', Some ''bea''] demo_enricher) =
       [''ann'', ''bea'', ''cy'', ''dee'']
   \<and> count_list (queue (enqueue [Some ''Dee'', None, Some [], Some ''DEE'', Some ''bea''] demo_enricher))
        (toLowerCase ''Dee'') = 1
   \<and> snd (snd (snd (drain createStore demo_drain_env
        (enqueue [Some ''Dee'', None, Some [], Some ''DEE'', Some ''bea''] demo_enricher) empty_store)))
       = [[''ann'', ''bea'', ''cy'', ''dee'']]
   \<and> count_list (concat (snd (snd (snd (drain createStore demo_drain_env
        (enqueue [Some ''Dee'', None, Some [], Some ''DEE'', Some ''bea''] demo_enricher) empty_store)))))
        (toLowerCase ''Dee'') = 1"
proof -
  let ?us = "[Some ''Dee'', None, Some [], Some ''DEE'', Some ''bea'']"
  let ?e = "enqueue ?us demo_enricher"
  let ?r = "drain createStore demo_drain_env ?e empty_store"
  have d: "distinct (queue demo_enricher)"
    by (simp add: demo_enricher_def)
  have l: "toLowerCase ''DEE'' = ''dee''" "toLowerCase ''Dee'' = ''dee''" "toLowerCase ''bea'' = ''bea''"
    by code_simp+
  have q: "queue ?e = [''ann'', ''bea'', ''cy'', ''dee'']"
    by (simp add: enqueue_def demo_enricher_def truthy_def or_empty_def set_add_def l)
  have nr: "\<not> running demo_enricher"
    by (simp add: demo_enricher_def)
  have r: "?r = (fst ?r, fst (snd ?r), fst (snd (snd ?r)), snd (snd (snd ?r)))"
    by simp
  have s: "snd (snd (snd ?r)) = [[''ann'', ''bea'', ''cy'', ''dee'']]"
    using drain_sent [OF _ _ r] nr q by simp
  note t = enqueue_idempotent_dedup [OF d r, THEN conjunct2, THEN conjunct2, THEN conjunct2,
      THEN spec, of "''Dee''"]
  from t nr have "count_list (queue ?e) (toLowerCase ''Dee'') = 1"
    and "count_list (concat (snd (snd (snd ?r)))) (toLowerCase ''Dee'') =
           (if toLowerCase ''Dee'' \<in> set (take 50 (queue ?e)) then 1 else 0)"
    by simp_all
  with d q s show ?thesis
    by (simp add: l)
qed

text \<open>
  The claim as first stated fails behind a full batch: with fifty names already
  pending, \<open>zed\<close> is enqueued twice and is pending once, but the next drain sends no
  lookup for it.
\<close>

theorem enqueue_then_drain_lookup_counterexample:
  "distinct (queue full_enricher) \<and> \<not> running full_enricher
   \<and> count_list (queue (enqueue [Some ''zed'', Some ''zed''] full_enricher)) ''zed'' = 1
   \<and> count_list (concat (snd (snd (snd (drain createStore demo_drain_env
         (enqueue [Some ''zed'', Some ''zed''] full_enricher) empty_store))))) ''zed'' = 0"
proof -
  let ?e = "enqueue [Some ''zed'', Some ''zed''] full_enricher"
  let ?r = "drain createStore demo_drain_env ?e empty_store"
  have len: "length fifty_names = 50"
    by (simp add: fifty_names_def)
  have nr: "\<not> running ?e"
    by (simp add: full_enricher_def)
  have ne: "queue ?e \<noteq> []"
    by (simp add: queue_full_zed)
  have r: "?r = (fst ?r, fst (snd ?r), fst (snd (snd ?r)), snd (snd (snd ?r)))"
    by simp
  have "snd (snd (snd ?r)) = [take 50 (queue ?e)]"
    using drain_sent [OF nr ne r] .
  then have s: "snd (snd (snd ?r)) = [fifty_names]"
    using len by (simp add: queue_full_zed)
  have c0: "count_list fifty_names ''zed'' = 0"
    using zed_not_fifty by (simp add: count_in_distinct distinct_fifty_names)
  have f: "distinct (queue full_enricher)" "\<not> running full_enricher"
    by (simp_all add: full_enricher_def distinct_fifty_names)
  show ?thesis
    using c0 f by (simp add: s queue_full_zed)
qed

section \<open>Properties of the token refresh\<close>

text \<open>
  C4, as amended. \<open>ensureFreshToken\<close> does nothing (no request, tenant and world as
  before) when the refresh token is falsy, or the recorded expiry is falsy, or the clock
  is more than 60000 ms before the expiry. Otherwise it sends exactly one refresh
  exchange, with the tenant's refresh token, and touches neither the store nor the
  enricher. When the exchange throws, the error is passed on and the tenant and the
  credential file stay as they were. When it succeeds, the access token is replaced,
  the refresh token and the scopes are replaced only by a returned value (a truthy
  refresh token, a present scope list) and kept otherwise, the expiry becomes the clock
  after the exchange plus 1000 times the returned lifetime in seconds (0 when absent),
  and no other field changes. The tenant's credentials, with the new values, are then
  written to the credential file: when the write succeeds the file holds them and no
  error is returned, when the write throws its error is passed on to the caller, with
  the four fields replaced all the same.
\<close>

theorem ensureFreshToken_contract:
  assumes run: "ensureFreshToken env a w = (err, a', w')"
  shows "((\<not> truthy (refreshToken a) \<or> \<not> truthy_num (tokenExpiresAt a)
           \<or> (\<exists>t. tokenExpiresAt a = Some t \<and> now_check env < t - 60000)) \<longrightarrow>
            err = None \<and> a' = a \<and> w' = w)
       \<and> (truthy (refreshToken a)
           \<and> (\<exists>t. tokenExpiresAt a = Some t \<and> t \<noteq> 0 \<and> t - 60000 \<le> now_check env) \<longrightarrow>
            refreshSent w' = refreshSent w @ [refreshToken a]
          \<and> db w' = db w \<and> enrich w' = enrich w
          \<and> (\<forall>x. refresh_http env (length (refreshSent w)) (refreshToken a) = Inl x \<longrightarrow>
                err = Some x \<and> a' = a \<and> authFile w' = authFile w)
          \<and> (\<forall>r. refresh_http env (length (refreshSent w)) (refreshToken a) = Inr r \<longrightarrow>
                a' = a\<lparr>token := access_token r,
                       refreshToken :=
                         (if truthy (refresh_token r) then refresh_token r else refreshToken a),
                       tokenScopes := (case scope r of Some sc \<Rightarrow> sc | None \<Rightarrow> tokenScopes a),
                       tokenExpiresAt :=
                         Some (now_refreshed env
                               + (case expires_in r of Some n \<Rightarrow> n | None \<Rightarrow> 0) * 1000)\<rparr>
              \<and> (auth_write env (length (refreshSent w)) (credentials a') = None \<longrightarrow>
                    err = None \<and> authFile w' = Some (credentials a'))
              \<and> (\<forall>x. auth_write env (length (refreshSent w)) (credentials a') = Some x \<longrightarrow>
                    err = Some x)))"
proof -
  have skip: "(\<not> truthy (refreshToken a) \<or> \<not> truthy_num (tokenExpiresAt a)
           \<or> (\<exists>t. tokenExpiresAt a = Some t \<and> now_check env < t - 60000)) \<longrightarrow>
            err = None \<and> a' = a \<and> w' = w"
    using run by (auto simp: ensureFreshToken_def split: if_splits)
  have due: "refreshSent w' = refreshSent w @ [refreshToken a]
          \<and> db w' = db w \<and> enrich w' = enrich w
          \<and> (\<forall>x. refresh_http env (length (refreshSent w)) (refreshToken a) = Inl x \<longrightarrow>
                err = Some x \<and> a' = a \<and> authFile w' = authFile w)
          \<and> (\<forall>r. refresh_http env (length (refreshSent w)) (refreshToken a) = Inr r \<longrightarrow>
                a' = a\<lparr>token := access_token r,
                       refreshToken :=
                         (if truthy (refresh_token r) then refresh_token r else refreshToken a),
                       tokenScopes := (case scope r of Some sc \<Rightarrow> sc | None \<Rightarrow> tokenScopes a),
                       tokenExpiresAt :=
                         Some (now_refreshed env
                               + (case expires_in r of Some n \<Rightarrow> n | None \<Rightarrow> 0) * 1000)\<rparr>
              \<and> (auth_write env (length (refreshSent w)) (credentials a') = None \<longrightarrow>
                    err = None \<and> authFile w' = Some (credentials a'))
              \<and> (\<forall>x. auth_write env (length (refreshSent w)) (credentials a') = Some x \<longrightarrow>
                    err = Some x))"
    if d: "truthy (refreshToken a)
           \<and> (\<exists>t. tokenExpiresAt a = Some t \<and> t \<noteq> 0 \<and> t - 60000 \<le> now_check env)"
  proof -
    from d run have ex: "refresh_exchange env (now_refreshed env) a w = (err, a', w')"
      by (auto simp: ensureFreshToken_def truthy_num_def)
    show ?thesis
    proof (cases "refresh_http env (length (refreshSent w)) (refreshToken a)")
      case (Inl x)
      with ex show ?thesis by (auto simp: refresh_exchange_def Let_def)
    next
      case (Inr r)
      with ex show ?thesis
        by (auto simp: refresh_exchange_def persistAuth_def Let_def split: option.splits)
    qed
  qed
  from skip due show ?thesis
    by blast
qed

lemmas demo_tick_simps =
  demo_tick_env_def demo_tenant_def demo_world_def bare_response_def full_response_def
  ensureFreshToken_def refresh_exchange_def persistAuth_def truthy_def truthy_num_def
  credentials_def Let_def

text \<open>An expiry 150 s ahead: nothing happens. An expiry within the minute: one exchange,
  all four fields replaced by the returned ones and written to the file. The same with a
  file that cannot be written: the fields are replaced and the error of the write is
  returned.\<close>

theorem ensureFreshToken_contract_witness:
  "ensureFreshToken (demo_tick_env full_response) (demo_tenant\<lparr>tokenExpiresAt := Some 200000\<rparr>)
      demo_world
     = (None, demo_tenant\<lparr>tokenExpiresAt := Some 200000\<rparr>, demo_world)
   \<and> fst (ensureFreshToken (demo_tick_env full_response) demo_tenant demo_world) = None
   \<and> fst (snd (ensureFreshToken (demo_tick_env full_response) demo_tenant demo_world))
       = demo_tenant\<lparr>token := Some ''tok1'', refreshToken := Some ''ref1'',
                      tokenScopes := [''moderator:read:followers''],
                      tokenExpiresAt := Some 3650200\<rparr>
   \<and> refreshSent (snd (snd (ensureFreshToken (demo_tick_env full_response) demo_tenant demo_world)))
       = [Some ''ref0'']
   \<and> authFile (snd (snd (ensureFreshToken (demo_tick_env full_response) demo_tenant demo_world)))
       = Some (credentials (demo_tenant\<lparr>token := Some ''tok1'', refreshToken := Some ''ref1'',
                      tokenScopes := [''moderator:read:followers''],
                      tokenExpiresAt := Some 3650200\<rparr>))
   \<and> fst (ensureFreshToken readonly_env demo_tenant demo_world)
       = Some (plain_error ''EACCES: permission denied'')
   \<and> fst (snd (ensureFreshToken readonly_env demo_tenant demo_world))
       = demo_tenant\<lparr>token := Some ''tok1'', refreshToken := Some ''ref1'',
                      tokenScopes := [''moderator:read:followers''],
                      tokenExpiresAt := Some 3650200\<rparr>"
proof -
  let ?env = "demo_tick_env full_response"
  let ?late = "demo_tenant\<lparr>tokenExpiresAt := Some 200000\<rparr>"
  let ?new = "demo_tenant\<lparr>token := access_token full_response,
            refreshToken := (if truthy (refresh_token full_response) then refresh_token full_response
                             else refreshToken demo_tenant),
            tokenScopes := (case scope full_response of Some sc \<Rightarrow> sc | None \<Rightarrow> tokenScopes demo_tenant),
            tokenExpiresAt := Some (50200
                + (case expires_in full_response of Some n \<Rightarrow> n | None \<Rightarrow> 0) * 1000)\<rparr>"
  let ?s = "ensureFreshToken ?env ?late demo_world"
  let ?r = "ensureFreshToken ?env demo_tenant demo_world"
  let ?q = "ensureFreshToken readonly_env demo_tenant demo_world"
  have s: "?s = (fst ?s, fst (snd ?s), snd (snd ?s))" and r: "?r = (fst ?r, fst (snd ?r), snd (snd ?r))"
    and q: "?q = (fst ?q, fst (snd ?q), snd (snd ?q))"
    by simp_all
  have early: "\<exists>t. tokenExpiresAt ?late = Some t \<and> now_check ?env < t - 60000"
    by (simp add: demo_tick_env_def demo_tenant_def)
  have due: "truthy (refreshToken demo_tenant)
     \<and> (\<exists>t. tokenExpiresAt demo_tenant = Some t \<and> t \<noteq> 0 \<and> t - 60000 \<le> now_check ?env)"
    and dueq: "truthy (refreshToken demo_tenant)
     \<and> (\<exists>t. tokenExpiresAt demo_tenant = Some t \<and> t \<noteq> 0 \<and> t - 60000 \<le> now_check readonly_env)"
    by (simp_all add: readonly_env_def demo_tick_env_def demo_tenant_def truthy_def)
  have ok: "refresh_http ?env (length (refreshSent demo_world)) (refreshToken demo_tenant) = Inr full_response"
    and okq: "refresh_http readonly_env (length (refreshSent demo_world)) (refreshToken demo_tenant)
               = Inr full_response"
    by (simp_all add: readonly_env_def demo_tick_env_def)
  have wr: "auth_write ?env k entry = None"
    and wq: "auth_write readonly_env k entry = Some (plain_error ''EACCES: permission denied'')"
    and nw: "now_refreshed ?env = 50200" "now_refreshed readonly_env = 50200" for k entry
    by (simp_all add: readonly_env_def demo_tick_env_def)
  from ensureFreshToken_contract [OF s] early have a: "?s = (None, ?late, demo_world)"
    by (metis s)
  note c = ensureFreshToken_contract [OF r, THEN conjunct2, rule_format, OF due]
  note c4 = c [THEN conjunct2, THEN conjunct2, THEN conjunct2, THEN conjunct2, rule_format, OF ok]
  have b1: "fst (snd ?r) = ?new"
    using c4 [THEN conjunct1] by (simp add: nw)
  have b2: "fst ?r = None \<and> authFile (snd (snd ?r)) = Some (credentials (fst (snd ?r)))"
    using c4 [THEN conjunct2, THEN conjunct1] by (simp add: wr)
  have b3: "refreshSent (snd (snd ?r)) = refreshSent demo_world @ [refreshToken demo_tenant]"
    using c [THEN conjunct1] .
  note d = ensureFreshToken_contract [OF q, THEN conjunct2, rule_format, OF dueq]
  note d4 = d [THEN conjunct2, THEN conjunct2, THEN conjunct2, THEN conjunct2, rule_format, OF okq]
  have d1: "fst (snd ?q) = ?new"
    using d4 [THEN conjunct1] by (simp add: nw)
  have d2: "fst ?q = Some (plain_error ''EACCES: permission denied'')"
    using d4 [THEN conjunct2, THEN conjunct2, rule_format, OF wq] .
  have n: "?new = demo_tenant\<lparr>token := Some ''tok1'', refreshToken := Some ''ref1'',
                      tokenScopes := [''moderator:read:followers''],
                      tokenExpiresAt := Some 3650200\<rparr>"
    by (simp add: full_response_def truthy_def)
  have b3': "refreshSent (snd (snd ?r)) = [Some ''ref0'']"
    using b3 by (simp add: demo_world_def demo_tenant_def)
  from a b1 b2 b3' d1 d2 show ?thesis
    unfolding n by simp
qed

text \<open>
  The claim as first stated has the scopes replaced on every successful refresh. A
  successful answer without a scope list leaves them as they were.
\<close>

theorem ensureFreshToken_scopes_counterexample:
  "fst (ensureFreshToken (demo_tick_env bare_response) demo_tenant demo_world) = None
   \<and> scope bare_response = None
   \<and> tokenScopes demo_tenant = [''moderator:read:chatters'']
   \<and> tokenScopes (fst (snd (ensureFreshToken (demo_tick_env bare_response) demo_tenant demo_world)))
       = [''moderator:read:chatters'']"
  by (simp add: demo_tick_simps)

section \<open>Properties of the tick: failures\<close>

lemma refresh_exchange_keeps:
  "refresh_exchange env now a w = (e, a', w') \<Longrightarrow>
   current a' = current a \<and> lastError a' = lastError a \<and> lastPollAt a' = lastPollAt a
   \<and> broadcasterLogin a' = broadcasterLogin a \<and> broadcasterId a' = broadcasterId a
   \<and> moderatorId a' = moderatorId a
   \<and> db w' = db w \<and> enrich w' = enrich w \<and> enrichToken w' = enrichToken w
   \<and> chattersSent w' = chattersSent w
   \<and> refreshSent w' = refreshSent w @ [refreshToken a]"
  by (auto simp: refresh_exchange_def persistAuth_def Let_def split: sum.splits option.splits)

lemma ensureFreshToken_keeps:
  "ensureFreshToken env a w = (e, a', w') \<Longrightarrow>
   current a' = current a \<and> lastError a' = lastError a \<and> lastPollAt a' = lastPollAt a
   \<and> broadcasterLogin a' = broadcasterLogin a \<and> broadcasterId a' = broadcasterId a
   \<and> moderatorId a' = moderatorId a
   \<and> db w' = db w \<and> enrich w' = enrich w \<and> enrichToken w' = enrichToken w
   \<and> chattersSent w' = chattersSent w"
  using refresh_exchange_keeps [of env "now_refreshed env" a w e a' w']
  by (auto simp: ensureFreshToken_def split: if_splits)

lemma tick_try_thrown_keeps:
  assumes "tick_try api env ts a w = (Some err, a1, w1)"
  shows "current a1 = current a \<and> lastError a1 = lastError a \<and> lastPollAt a1 = lastPollAt a"
proof -
  obtain e af wf where ef: "ensureFreshToken env a w = (e, af, wf)"
    by (cases "ensureFreshToken env a w")
  note k = ensureFreshToken_keeps [OF ef]
  show ?thesis
  proof (cases e)
    case (Some x)
    with assms ef have "a1 = af" by (simp add: tick_try_def)
    with k show ?thesis by simp
  next
    case None
    with assms ef have "a1 = af"
      by (auto simp: tick_try_def Let_def split: prod.splits sum.splits option.splits)
    with k show ?thesis by simp
  qed
qed

text \<open>
  C3. Let a tick of a ready tenant throw \<open>err\<close> inside its \<open>try\<close> block (from the
  token refresh or the credential write that follows it, the chatters fetch or a store
  call, whatever store is used), with the tenant \<open>a1\<close> and the world \<open>w1\<close> at that
  point. The tick still returns, the presence set is the one before the tick, and the
  handler writes nothing to the store or the enricher. If \<open>err\<close> is a 401 response and
  the tenant has a refresh token, the handler sends exactly one refresh exchange. When
  the exchange throws, its error is recorded as the last error. When it is answered,
  the token is replaced and the credentials are written: if the write succeeds the
  refresh has succeeded and the last error stays what it was before the tick, if the
  write throws the refresh has failed and the error of the write is recorded. In every
  other case nothing is sent and the text of \<open>err\<close> is recorded as the last error.
\<close>

theorem tickOne_failure_handling:
  assumes ready: "tick_ready env a"
    and thrown: "tick_try api env (now_tick env) (a\<lparr>lastPollAt := Some (now_tick env)\<rparr>) w
                   = (Some err, a1, w1)"
    and res: "tickOne api env a w = (a', w')"
  shows "current a' = current a
       \<and> db w' = db w1 \<and> enrich w' = enrich w1
       \<and> (err_status err = Some 401 \<and> truthy (refreshToken a1) \<longrightarrow>
             refreshSent w' = refreshSent w1 @ [refreshToken a1]
           \<and> (\<forall>e2. refresh_http env (length (refreshSent w1)) (refreshToken a1) = Inl e2 \<longrightarrow>
                  lastError a' = Some (error_text e2) \<and> token a' = token a1)
           \<and> (\<forall>r. refresh_http env (length (refreshSent w1)) (refreshToken a1) = Inr r \<longrightarrow>
                  token a' = access_token r
                \<and> (auth_write env (length (refreshSent w1)) (credentials a') = None \<longrightarrow>
                      lastError a' = lastError a \<and> authFile w' = Some (credentials a'))
                \<and> (\<forall>e3. auth_write env (length (refreshSent w1)) (credentials a') = Some e3 \<longrightarrow>
                      lastError a' = Some (error_text e3))))
       \<and> (\<not> (err_status err = Some 401 \<and> truthy (refreshToken a1)) \<longrightarrow>
             a' = a1\<lparr>lastError := Some (error_text err)\<rparr> \<and> w' = w1)"
proof -
  from tick_try_thrown_keeps [OF thrown]
  have k: "current a1 = current a" "lastError a1 = lastError a"
    by simp_all
  have c: "tick_catch env err a1 w1 = (a', w')"
    using ready thrown res by (simp add: tickOne_def Let_def)
  show ?thesis
  proof (cases "err_status err = Some 401 \<and> truthy (refreshToken a1)")
    case False
    with c have "a' = a1\<lparr>lastError := Some (error_text err)\<rparr>" "w' = w1"
      by (auto simp: tick_catch_def)
    with k False show ?thesis by simp
  next
    case True
    let ?k = "length (refreshSent w1)"
    obtain e2 a2 w2 where rx: "refresh_exchange env (now_recovered env) a1 w1 = (e2, a2, w2)"
      by (cases "refresh_exchange env (now_recovered env) a1 w1")
    note rk = refresh_exchange_keeps [OF rx]
    have w: "w' = w2"
      using c True rx by (cases e2) (simp_all add: tick_catch_def)
    have cr: "credentials a' = credentials a2"
      using c True rx by (cases e2) (auto simp: tick_catch_def credentials_def)
    have tk: "token a' = token a2"
      using c True rx by (cases e2) (auto simp: tick_catch_def)
    have bad: "lastError a' = Some (error_text x) \<and> token a' = token a1"
      if "refresh_http env ?k (refreshToken a1) = Inl x" for x
    proof -
      from that rx have "e2 = Some x" "a2 = a1" by (auto simp: refresh_exchange_def Let_def)
      with c True rx have "a' = a1\<lparr>lastError := Some (error_text x)\<rparr>" by (simp add: tick_catch_def)
      then show ?thesis by simp
    qed
    have ok: "token a' = access_token r
          \<and> (auth_write env ?k (credentials a') = None \<longrightarrow>
                lastError a' = lastError a \<and> authFile w' = Some (credentials a'))
          \<and> (\<forall>e3. auth_write env ?k (credentials a') = Some e3 \<longrightarrow>
                lastError a' = Some (error_text e3))"
      if "refresh_http env ?k (refreshToken a1) = Inr r" for r
    proof -
      from that rx have t: "token a2 = access_token r"
        and e: "e2 = auth_write env ?k (credentials a2)"
        and f: "e2 = None \<longrightarrow> authFile w2 = Some (credentials a2)"
        by (auto simp: refresh_exchange_def persistAuth_def Let_def split: option.splits)
      have n: "lastError a' = lastError a" if "e2 = None"
      proof -
        from that c True rx have "a' = a2" by (simp add: tick_catch_def)
        with rk k show ?thesis by simp
      qed
      have s: "lastError a' = Some (error_text x)" if "e2 = Some x" for x
      proof -
        from that c True rx have "a' = a2\<lparr>lastError := Some (error_text x)\<rparr>"
          by (simp add: tick_catch_def)
        then show ?thesis by simp
      qed
      from t e f n s show ?thesis
        unfolding cr tk w by simp
    qed
    have cur: "current a' = current a"
      using c True rx rk k by (cases e2) (auto simp: tick_catch_def)
    have sent: "refreshSent w' = refreshSent w1 @ [refreshToken a1]"
      and keep: "db w' = db w1" "enrich w' = enrich w1"
      using rk w by simp_all
    from cur keep sent bad ok True show ?thesis
      by blast
  qed
qed

lemmas denied_simps =
  denied_env_def denied_twice_env_def denied_readonly_env_def readonly_env_def
  late_tenant_def due_tenant_def unauthorized_def plain_error_def
  tick_try_def tick_ready_def tickOne_def tick_catch_def error_text_def or_empty_def
  fetchChatters_def fetchChatters_loop.simps [of _ _ 0] next_request_def demo_tick_simps

lemma norm_alice: "norm_login (Some ''alice'') = ''alice''"
  by code_simp

lemma lower_alice_bob: "toLowerCase ''alice'' = ''alice''" "toLowerCase ''bob'' = ''bob''"
  by code_simp+

lemmas snapshot_tick_simps =
  snapshot_env_def steady_env_def steady_tenant_def demo_tick_env_def demo_tenant_def demo_world_def
  empty_store_def full_response_def
  tickOne_def tick_ready_def tick_try_def tick_succeeds_def ensureFreshToken_def
  truthy_def truthy_num_def or_empty_def
  fetchChatters_def fetchChatters_loop.simps [of _ _ 0] next_request_def
  norm_alice norm_demo lower_alice_bob set_add_def
  createStore_def eventJoin_def eventLeave_def insertEvent_def insertSession_def closeSession_def
  new_session_def close_row_def open_for_def session_duration_def
  enqueue_def Let_def

lemma flaky_thrown:
  "tick_try flaky_store (snapshot_env 3000 [''alice'']) (now_tick (snapshot_env 3000 [''alice'']))
      ((steady_tenant [''alice'', ''bob'', ''dan''])
          \<lparr>lastPollAt := Some (now_tick (snapshot_env 3000 [''alice'']))\<rparr>)
      (demo_world\<lparr>db := three_open\<rparr>)
     = (Some (plain_error ''disk I/O error''),
        (steady_tenant [''alice'', ''bob'', ''dan''])\<lparr>lastPollAt := Some 3000\<rparr>,
        demo_world
          \<lparr>db := \<lparr>events =
                    [\<lparr>ev_username = ''bob'', ev_type = Leave, ev_ts = 3000, ev_channel_login = Some ''chan''\<rparr>],
                  sessions = [new_session ''alice'' 1000 ''chan'',
                              close_row 3000 2 (new_session ''bob'' 1000 ''chan''),
                              new_session ''dan'' 2000 ''chan''],
                  users_table = Map.empty\<rparr>,
           chattersSent :=
             [\<lparr>rq_client_id = Some ''cid'', rq_token = Some ''tok0'', rq_broadcaster_id = Some ''7'',
               rq_moderator_id = Some ''42'', rq_first = 1000, rq_after = None\<rparr>]\<rparr>)"
  by (simp add: flaky_store_def three_open_def snapshot_tick_simps plain_error_def)

lemma denied_thrown:
  "tick_try createStore denied_env (now_tick denied_env)
      (late_tenant\<lparr>lastPollAt := Some (now_tick denied_env)\<rparr>) demo_world
     = (Some unauthorized, late_tenant\<lparr>lastPollAt := Some 50000\<rparr>,
        demo_world\<lparr>chattersSent :=
          [\<lparr>rq_client_id = Some ''cid'', rq_token = Some ''tok0'', rq_broadcaster_id = Some ''7'',
            rq_moderator_id = Some ''42'', rq_first = 1000, rq_after = None\<rparr>]\<rparr>)"
  by (simp add: denied_simps)

lemma denied_twice_thrown:
  "tick_try createStore denied_twice_env (now_tick denied_twice_env)
      (late_tenant\<lparr>lastPollAt := Some (now_tick denied_twice_env)\<rparr>) demo_world
     = (Some unauthorized, late_tenant\<lparr>lastPollAt := Some 50000\<rparr>,
        demo_world\<lparr>chattersSent :=
          [\<lparr>rq_client_id = Some ''cid'', rq_token = Some ''tok0'', rq_broadcaster_id = Some ''7'',
            rq_moderator_id = Some ''42'', rq_first = 1000, rq_after = None\<rparr>]\<rparr>)"
  by (simp add: denied_simps)

lemma denied_readonly_thrown:
  "tick_try createStore denied_readonly_env (now_tick denied_readonly_env)
      (late_tenant\<lparr>lastPollAt := Some (now_tick denied_readonly_env)\<rparr>) demo_world
     = (Some unauthorized, late_tenant\<lparr>lastPollAt := Some 50000\<rparr>,
        demo_world\<lparr>chattersSent :=
          [\<lparr>rq_client_id = Some ''cid'', rq_token = Some ''tok0'', rq_broadcaster_id = Some ''7'',
            rq_moderator_id = Some ''42'', rq_first = 1000, rq_after = None\<rparr>]\<rparr>)"
  by (simp add: denied_simps)

lemma readonly_thrown:
  "tick_try createStore readonly_env (now_tick readonly_env)
      (due_tenant\<lparr>lastPollAt := Some (now_tick readonly_env)\<rparr>) demo_world
     = (Some (plain_error ''EACCES: permission denied''),
        due_tenant\<lparr>lastPollAt := Some 50000, token := Some ''tok1'', refreshToken := Some ''ref1'',
                    tokenScopes := [''moderator:read:followers''],
                    tokenExpiresAt := Some 3650200\<rparr>,
        demo_world\<lparr>refreshSent := [Some ''ref0'']\<rparr>)"
  by (simp add: denied_simps)

text \<open>A 401 from the chatters endpoint, followed by a refresh that succeeds, by one whose
  exchange fails and by one whose credential write fails; a credential write that fails
  in \<open>ensureFreshToken\<close>; and a store call that throws after a leave has gone through:
  the error is recorded, the presence set stays, and the session already closed stays
  closed.\<close>

theorem tickOne_failure_handling_witness:
  "tick_ready denied_env late_tenant
   \<and> err_status unauthorized = Some 401
   \<and> current (fst (tickOne createStore denied_env late_tenant demo_world)) = [''alice'']
   \<and> lastError (fst (tickOne createStore denied_env late_tenant demo_world)) = None
   \<and> token (fst (tickOne createStore denied_env late_tenant demo_world)) = Some ''tok1''
   \<and> refreshSent (snd (tickOne createStore denied_env late_tenant demo_world)) = [Some ''ref0'']
   \<and> current (fst (tickOne createStore denied_twice_env late_tenant demo_world)) = [''alice'']
   \<and> lastError (fst (tickOne createStore denied_twice_env late_tenant demo_world))
       = Some ''invalid refresh token''
   \<and> refreshSent (snd (tickOne createStore denied_twice_env late_tenant demo_world)) = [Some ''ref0'']
   \<and> current (fst (tickOne createStore denied_readonly_env late_tenant demo_world)) = [''alice'']
   \<and> lastError (fst (tickOne createStore denied_readonly_env late_tenant demo_world))
       = Some ''EACCES: permission denied''
   \<and> token (fst (tickOne createStore denied_readonly_env late_tenant demo_world)) = Some ''tok1''
   \<and> refreshSent (snd (tickOne createStore denied_readonly_env late_tenant demo_world))
       = [Some ''ref0'']
   \<and> current (fst (tickOne createStore readonly_env due_tenant demo_world)) = [''alice'']
   \<and> lastError (fst (tickOne createStore readonly_env due_tenant demo_world))
       = Some ''EACCES: permission denied''
   \<and> refreshSent (snd (tickOne createStore readonly_env due_tenant demo_world)) = [Some ''ref0'']
   \<and> current (fst after_failed_tick) = [''alice'', ''bob'', ''dan'']
   \<and> lastError (fst after_failed_tick) = Some ''disk I/O error''
   \<and> sessions (db (snd after_failed_tick)) =
       [new_session ''alice'' 1000 ''chan'', close_row 3000 2 (new_session ''bob'' 1000 ''chan''),
        new_session ''dan'' 2000 ''chan'']"
proof -
  let ?t1 = "tickOne createStore denied_env late_tenant demo_world"
  let ?t2 = "tickOne createStore denied_twice_env late_tenant demo_world"
  let ?t4 = "tickOne createStore denied_readonly_env late_tenant demo_world"
  let ?t5 = "tickOne createStore readonly_env due_tenant demo_world"
  have r1: "tick_ready denied_env late_tenant" and r2: "tick_ready denied_twice_env late_tenant"
    and r4: "tick_ready denied_readonly_env late_tenant" and r5: "tick_ready readonly_env due_tenant"
    by (simp_all add: denied_simps)
  have p1: "?t1 = (fst ?t1, snd ?t1)" and p2: "?t2 = (fst ?t2, snd ?t2)"
    and p4: "?t4 = (fst ?t4, snd ?t4)" and p5: "?t5 = (fst ?t5, snd ?t5)"
    by simp_all
  have f: "err_status unauthorized = Some 401 \<and> truthy (refreshToken (late_tenant\<lparr>lastPollAt := Some 50000\<rparr>))"
    by (simp add: unauthorized_def late_tenant_def demo_tenant_def truthy_def)
  have g: "refreshToken (late_tenant\<lparr>lastPollAt := Some 50000\<rparr>) = Some ''ref0''"
    "current late_tenant = [''alice'']" "lastError late_tenant = None"
    "current due_tenant = [''alice'']"
    "refreshSent demo_world = []"
    "refreshSent (demo_world\<lparr>chattersSent := cs\<rparr>) = []" for cs
    by (simp_all add: late_tenant_def due_tenant_def demo_tenant_def demo_world_def)
  have h1: "refresh_http denied_env k t = Inr full_response"
    and h2: "refresh_http denied_twice_env k t = Inl (plain_error ''invalid refresh token'')"
    and h4: "refresh_http denied_readonly_env k t = Inr full_response" for k t
    by (simp_all add: denied_readonly_env_def denied_env_def denied_twice_env_def demo_tick_env_def)
  have w1: "auth_write denied_env k entry = None"
    and w4: "auth_write denied_readonly_env k entry = Some (plain_error ''EACCES: permission denied'')"
    for k entry
    by (simp_all add: denied_readonly_env_def denied_env_def demo_tick_env_def)
  have e: "error_text (plain_error ''invalid refresh token'') = ''invalid refresh token''"
    "error_text (plain_error ''EACCES: permission denied'') = ''EACCES: permission denied''"
    "error_text (plain_error ''disk I/O error'') = ''disk I/O error''"
    by (simp_all add: error_text_def plain_error_def truthy_def or_empty_def)
  have tk: "access_token full_response = Some ''tok1''"
    by (simp add: full_response_def)

  note t1 = tickOne_failure_handling [OF r1 denied_thrown p1]
  note x1 = t1 [THEN conjunct2, THEN conjunct2, THEN conjunct2, THEN conjunct1, rule_format, OF f]
  note y1 = x1 [THEN conjunct2, THEN conjunct2, rule_format, OF h1]
  have a: "current (fst ?t1) = [''alice''] \<and> lastError (fst ?t1) = None
      \<and> token (fst ?t1) = Some ''tok1'' \<and> refreshSent (snd ?t1) = [Some ''ref0'']"
    using t1 [THEN conjunct1] x1 [THEN conjunct1] y1 [THEN conjunct1]
      y1 [THEN conjunct2, THEN conjunct1, rule_format, OF w1, THEN conjunct1]
    by (simp add: g tk)

  note t2 = tickOne_failure_handling [OF r2 denied_twice_thrown p2]
  note x2 = t2 [THEN conjunct2, THEN conjunct2, THEN conjunct2, THEN conjunct1, rule_format, OF f]
  have b: "current (fst ?t2) = [''alice''] \<and> lastError (fst ?t2) = Some ''invalid refresh token''
      \<and> refreshSent (snd ?t2) = [Some ''ref0'']"
    using t2 [THEN conjunct1] x2 [THEN conjunct1]
      x2 [THEN conjunct2, THEN conjunct1, rule_format, OF h2, THEN conjunct1]
    by (simp add: g e)

  note t4 = tickOne_failure_handling [OF r4 denied_readonly_thrown p4]
  note x4 = t4 [THEN conjunct2, THEN conjunct2, THEN conjunct2, THEN conjunct1, rule_format, OF f]
  note y4 = x4 [THEN conjunct2, THEN conjunct2, rule_format, OF h4]
  have d: "current (fst ?t4) = [''alice'']
      \<and> lastError (fst ?t4) = Some ''EACCES: permission denied''
      \<and> token (fst ?t4) = Some ''tok1'' \<and> refreshSent (snd ?t4) = [Some ''ref0'']"
    using t4 [THEN conjunct1] x4 [THEN conjunct1] y4 [THEN conjunct1]
      y4 [THEN conjunct2, THEN conjunct2, rule_format, OF w4]
    by (simp add: g e tk)

  have n5: "\<not> (err_status (plain_error ''EACCES: permission denied'') = Some 401
      \<and> truthy (refreshToken (due_tenant\<lparr>lastPollAt := Some 50000, token := Some ''tok1'',
                    refreshToken := Some ''ref1'',
                    tokenScopes := [''moderator:read:followers''],
                    tokenExpiresAt := Some 3650200\<rparr>)))"
    by (simp add: plain_error_def)
  note t5 = tickOne_failure_handling [OF r5 readonly_thrown p5]
  note x5 = t5 [THEN conjunct2, THEN conjunct2, THEN conjunct2, THEN conjunct2, rule_format, OF n5]
  have c5: "current (fst ?t5) = [''alice'']
      \<and> lastError (fst ?t5) = Some ''EACCES: permission denied''
      \<and> refreshSent (snd ?t5) = [Some ''ref0'']"
    using t5 [THEN conjunct1] x5
    by (simp add: g e)

  let ?env = "snapshot_env 3000 [''alice'']"
  let ?a = "steady_tenant [''alice'', ''bob'', ''dan'']"
  have r3: "tick_ready ?env ?a"
    by (simp add: snapshot_tick_simps)
  have p3: "tickOne flaky_store ?env ?a (demo_world\<lparr>db := three_open\<rparr>)
      = (fst after_failed_tick, snd after_failed_tick)"
    by (simp add: after_failed_tick_def)
  have n3: "\<not> (err_status (plain_error ''disk I/O error'') = Some 401
      \<and> truthy (refreshToken (?a\<lparr>lastPollAt := Some 3000\<rparr>)))"
    by (simp add: plain_error_def)
  note t3 = tickOne_failure_handling [OF r3 flaky_thrown p3]
  note x3 = t3 [THEN conjunct2, THEN conjunct2, THEN conjunct2, THEN conjunct2, rule_format, OF n3]
  have c: "current (fst after_failed_tick) = [''alice'', ''bob'', ''dan'']
      \<and> lastError (fst after_failed_tick) = Some ''disk I/O error''
      \<and> sessions (db (snd after_failed_tick)) =
          [new_session ''alice'' 1000 ''chan'', close_row 3000 2 (new_session ''bob'' 1000 ''chan''),
           new_session ''dan'' 2000 ''chan'']"
    using t3 [THEN conjunct1] x3
    by (simp add: steady_tenant_def demo_tenant_def e)
  from r1 f a b d c5 c show ?thesis
    by simp
qed

section \<open>Properties of the tick: the diff and the open sessions\<close>

lemma sessions_eventLeave: "sessions (eventLeave u ts ch st) = leave_sessions u ts ch (sessions st)"
  by (simp add: eventLeave_def leave_sessions_def closeSession_def Let_def split: option.splits)

lemma events_eventLeave:
  "events (eventLeave u ts ch st) =
     events st @ [\<lparr>ev_username = u, ev_type = Leave, ev_ts = ts, ev_channel_login = Some ch\<rparr>]"
  by (simp add: eventLeave_def Let_def split: option.splits)

lemma users_eventLeave: "users_table (eventLeave u ts ch st) = users_table st"
  by (simp add: eventLeave_def closeSession_def insertEvent_def Let_def split: option.splits)

lemma length_leave_sessions [simp]: "length (leave_sessions u ts ch s) = length s"
  by (simp add: leave_sessions_def split: option.splits)

lemma latest_open_cong:
  "length s' = length s \<Longrightarrow>
   \<forall>j < length s. open_for v ch (s' ! j) = open_for v ch (s ! j) \<and> joined_at (s' ! j) = joined_at (s ! j) \<Longrightarrow>
   latest_open v ch s' = latest_open v ch s"
proof (induction s' s rule: list_induct2)
  case Nil
  then show ?case by simp
next
  case (Cons r' rs' r rs)
  have hd: "open_for v ch r' = open_for v ch r" "joined_at r' = joined_at r"
    using Cons.prems by (auto dest: spec [of _ 0])
  have tl: "\<forall>j < length rs. open_for v ch (rs' ! j) = open_for v ch (rs ! j)
              \<and> joined_at (rs' ! j) = joined_at (rs ! j)"
    using Cons.prems by (auto dest: spec [of _ "Suc _"])
  from Cons.IH [OF tl] have eq: "latest_open v ch rs' = latest_open v ch rs" .
  show ?case
  proof (cases "latest_open v ch rs")
    case None
    with eq hd show ?thesis by simp
  next
    case (Some j)
    from latest_open_Some [OF Some] have "j < length rs" by simp
    with tl have "joined_at (rs' ! j) = joined_at (rs ! j)" by simp
    with eq Some hd show ?thesis by simp
  qed
qed

lemma latest_open_append:
  "\<forall>r \<in> set ys. \<not> open_for u ch r \<Longrightarrow> latest_open u ch (xs @ ys) = latest_open u ch xs"
proof (induction xs)
  case Nil
  then show ?case by (simp add: latest_open_None)
next
  case (Cons x xs)
  from Cons have eq: "latest_open u ch (xs @ ys) = latest_open u ch xs" by simp
  show ?case
  proof (cases "latest_open u ch xs")
    case None
    with eq show ?thesis by simp
  next
    case (Some j)
    from latest_open_Some [OF Some] have "j < length xs" by simp
    then have "(xs @ ys) ! j = xs ! j" by (simp add: nth_append)
    with eq Some show ?thesis by simp
  qed
qed

lemma latest_open_username:
  "latest_open u ch s = Some i \<Longrightarrow> username (s ! i) = u"
  using latest_open_Some [of u ch s i] by (simp add: open_for_def)

lemma latest_open_leave_other:
  assumes "v \<noteq> u"
  shows "latest_open v ch (leave_sessions u ts ch s) = latest_open v ch s"
proof (cases "latest_open u ch s")
  case None
  then show ?thesis by (simp add: leave_sessions_def)
next
  case (Some i)
  from latest_open_Some [OF Some] have i: "i < length s" "open_for u ch (s ! i)" by simp_all
  let ?s' = "s[i := close_row ts (session_duration ts (joined_at (s ! i))) (s ! i)]"
  have "\<forall>j < length s. open_for v ch (?s' ! j) = open_for v ch (s ! j)
          \<and> joined_at (?s' ! j) = joined_at (s ! j)"
    using i assms by (auto simp: nth_list_update open_for_def close_row_def)
  from latest_open_cong [OF _ this] Some show ?thesis
    by (simp add: leave_sessions_def)
qed

lemma leave_sessions_nth:
  "i < length s \<Longrightarrow>
   leave_sessions u ts ch s ! i =
     (if latest_open u ch s = Some i
      then close_row ts (session_duration ts (joined_at (s ! i))) (s ! i) else s ! i)"
  by (auto simp: leave_sessions_def nth_list_update split: option.splits)

lemma leave_all_nth:
  "distinct us \<Longrightarrow> i < length s \<Longrightarrow>
   foldl (\<lambda>s u. leave_sessions u ts ch s) s us ! i =
     (if \<exists>u \<in> set us. latest_open u ch s = Some i
      then close_row ts (session_duration ts (joined_at (s ! i))) (s ! i) else s ! i)"
proof (induction us arbitrary: s)
  case Nil
  then show ?case by simp
next
  case (Cons u us)
  let ?s1 = "leave_sessions u ts ch s"
  have d: "distinct us" and nu: "u \<notin> set us"
    using Cons.prems by simp_all
  have i1: "i < length ?s1"
    using Cons.prems by simp
  have same: "latest_open v ch ?s1 = latest_open v ch s" if "v \<in> set us" for v
    using latest_open_leave_other [of v u ch ts s] that nu by auto
  have IH: "foldl (\<lambda>s u. leave_sessions u ts ch s) ?s1 us ! i =
     (if \<exists>v \<in> set us. latest_open v ch s = Some i
      then close_row ts (session_duration ts (joined_at (?s1 ! i))) (?s1 ! i) else ?s1 ! i)"
    using Cons.IH [OF d i1] same by auto
  show ?case
  proof (cases "\<exists>v \<in> set us. latest_open v ch s = Some i")
    case True
    then obtain v where v: "v \<in> set us" "latest_open v ch s = Some i" by blast
    with nu have "v \<noteq> u" by auto
    with latest_open_username [OF v(2)] have "latest_open u ch s \<noteq> Some i"
      using latest_open_username [of u ch s i] by auto
    then have "?s1 ! i = s ! i"
      using Cons.prems(2) by (simp add: leave_sessions_nth)
    with IH True show ?thesis by auto
  next
    case False
    with IH have "foldl (\<lambda>s u. leave_sessions u ts ch s) ?s1 us ! i = ?s1 ! i" by simp
    with False Cons.prems(2) show ?thesis
      by (simp add: leave_sessions_nth)
  qed
qed

lemma length_leave_all [simp]: "length (foldl (\<lambda>s u. leave_sessions u ts ch s) s us) = length s"
  by (induction us arbitrary: s) auto

lemma fetchChatters_normalised:
  assumes "fst (fetchChatters http c t b m) = Inr next"
  shows "distinct next \<and> (\<forall>u \<in> set next. u \<noteq> [] \<and> toLowerCase u = u)"
proof -
  let ?p = "\<lparr>rq_client_id = c, rq_token = t, rq_broadcaster_id = b, rq_moderator_id = m,
             rq_first = 1000, rq_after = None\<rparr>"
  have r: "fst (fetchChatters_loop http ?p 0 [] None []) = Inr next"
    using assms by (simp add: fetchChatters_def)
  have d: "distinct next"
    using loop_distinct [of "[]" http "?p" 0 None "[]" "next"] r by simp
  have "u \<noteq> [] \<and> toLowerCase u = u" if "u \<in> set next" for u
  proof -
    from loop_users [of "[]" 0 http "?p" "[]" None "next" u] r that
    obtain pg where "u \<in> page_logins pg" by auto
    then show ?thesis
      by (auto simp: page_logins_def toLowerCase_norm_login)
  qed
  with d show ?thesis by blast
qed

lemma for_each_join:
  "for_each (api_eventJoin createStore) us ts ch st = (None, foldl (\<lambda>s u. eventJoin u ts ch s) st us)"
  by (induction us arbitrary: st) (simp_all add: createStore_def)

lemma for_each_leave:
  "for_each (api_eventLeave createStore) us ts ch st = (None, foldl (\<lambda>s u. eventLeave u ts ch s) st us)"
  by (induction us arbitrary: st) (simp_all add: createStore_def)

lemma join_all:
  "sessions (foldl (\<lambda>s u. eventJoin u ts ch s) st us) = sessions st @ map (\<lambda>u. new_session u ts ch) us
   \<and> events (foldl (\<lambda>s u. eventJoin u ts ch s) st us) =
       events st @ map (\<lambda>u. \<lparr>ev_username = u, ev_type = Join, ev_ts = ts, ev_channel_login = Some ch\<rparr>) us
   \<and> users_table (foldl (\<lambda>s u. eventJoin u ts ch s) st us) = users_table st"
  by (induction us arbitrary: st) (simp_all add: eventJoin_def insertSession_def insertEvent_def)

lemma leave_all:
  "sessions (foldl (\<lambda>s u. eventLeave u ts ch s) st us) =
     foldl (\<lambda>s u. leave_sessions u ts ch s) (sessions st) us
   \<and> events (foldl (\<lambda>s u. eventLeave u ts ch s) st us) =
       events st @ map (\<lambda>u. \<lparr>ev_username = u, ev_type = Leave, ev_ts = ts, ev_channel_login = Some ch\<rparr>) us
   \<and> users_table (foldl (\<lambda>s u. eventLeave u ts ch s) st us) = users_table st"
  by (induction us arbitrary: st) (simp_all add: sessions_eventLeave events_eventLeave users_eventLeave)

lemma tick_try_success:
  assumes fresh: "ensureFreshToken env a w = (None, a1, w1)"
    and fetched: "fetchChatters (chatters_http env) (cfg_clientId env) (token a1)
                    (broadcasterId a1) (moderatorId a1) = (Inr next, sent)"
  shows "tick_try createStore env ts a w =
     (None, a1\<lparr>current := next, lastError := None\<rparr>,
      (if filter (\<lambda>u. u \<notin> set (current a1)) next \<noteq> [] \<or> filter (\<lambda>u. u \<notin> set next) (current a1) \<noteq> []
       then w1\<lparr>chattersSent := chattersSent w1 @ sent,
               db := apply_diff (filter (\<lambda>u. u \<notin> set (current a1)) next)
                       (filter (\<lambda>u. u \<notin> set next) (current a1)) ts (or_empty (broadcasterLogin a1)) (db w1),
               enrichToken := token a1,
               enrich := enqueue (map Some (filter (\<lambda>u. u \<notin> set (current a1)) next)) (enrich w1)\<rparr>
       else w1\<lparr>chattersSent := chattersSent w1 @ sent,
               db := apply_diff (filter (\<lambda>u. u \<notin> set (current a1)) next)
                       (filter (\<lambda>u. u \<notin> set next) (current a1)) ts (or_empty (broadcasterLogin a1)) (db w1)\<rparr>))"
  using fresh fetched
  by (simp add: tick_try_def Let_def for_each_join for_each_leave apply_diff_def)

lemma diff_sessions:
  assumes dl: "distinct left" and disj: "set left \<inter> set joined = {}"
  shows "length (sessions (apply_diff joined left ts ch st)) = length (sessions st) + length joined
       \<and> drop (length (sessions st)) (sessions (apply_diff joined left ts ch st))
           = map (\<lambda>u. new_session u ts ch) joined
       \<and> (\<forall>i < length (sessions st).
             sessions (apply_diff joined left ts ch st) ! i =
               (if \<exists>u \<in> set left. latest_open u ch (sessions st) = Some i
                then close_row ts (session_duration ts (joined_at (sessions st ! i))) (sessions st ! i)
                else sessions st ! i))"
proof -
  let ?S = "sessions st"
  let ?new = "map (\<lambda>u. new_session u ts ch) joined"
  let ?R = "foldl (\<lambda>s u. leave_sessions u ts ch s) (?S @ ?new) left"
  have R: "sessions (apply_diff joined left ts ch st) = ?R"
    by (simp add: apply_diff_def leave_all join_all)
  have len: "length ?R = length ?S + length joined"
    by simp
  have lo: "latest_open u ch (?S @ ?new) = latest_open u ch ?S" if "u \<in> set left" for u
  proof -
    from that disj have "u \<notin> set joined" by auto
    then have "\<forall>r \<in> set ?new. \<not> open_for u ch r"
      by (auto simp: new_session_def open_for_def)
    then show ?thesis by (rule latest_open_append)
  qed
  have nth: "?R ! i =
      (if \<exists>u \<in> set left. latest_open u ch ?S = Some i
       then close_row ts (session_duration ts (joined_at ((?S @ ?new) ! i))) ((?S @ ?new) ! i)
       else (?S @ ?new) ! i)" if "i < length ?S + length joined" for i
    using leave_all_nth [OF dl, of i "?S @ ?new" ts ch] that lo by auto
  have old: "?R ! i =
      (if \<exists>u \<in> set left. latest_open u ch ?S = Some i
       then close_row ts (session_duration ts (joined_at (?S ! i))) (?S ! i) else ?S ! i)"
    if "i < length ?S" for i
    using nth [of i] that by (simp add: nth_append)
  have new: "drop (length ?S) ?R = ?new"
  proof (rule nth_equalityI)
    show "length (drop (length ?S) ?R) = length ?new" by simp
  next
    fix i assume "i < length (drop (length ?S) ?R)"
    then have i: "i < length joined" by simp
    have "\<not> (\<exists>u \<in> set left. latest_open u ch ?S = Some (length ?S + i))"
      using latest_open_Some [of _ ch ?S "length ?S + i"] by auto
    with nth [of "length ?S + i"] i have "?R ! (length ?S + i) = (?S @ ?new) ! (length ?S + i)"
      by simp
    with i show "drop (length ?S) ?R ! i = ?new ! i"
      by (simp add: nth_append)
  qed
  show ?thesis
    unfolding R
  proof (intro conjI allI impI)
    show "length ?R = length ?S + length joined" by (rule len)
    show "drop (length ?S) ?R = ?new" by (rule new)
    fix i assume "i < length ?S"
    then show "?R ! i =
      (if \<exists>u \<in> set left. latest_open u ch ?S = Some i
       then close_row ts (session_duration ts (joined_at (?S ! i))) (?S ! i) else ?S ! i)"
      by (rule old)
  qed
qed

lemma diff_events:
  "events (apply_diff joined left ts ch st) =
     events st
     @ map (\<lambda>u. \<lparr>ev_username = u, ev_type = Join, ev_ts = ts, ev_channel_login = Some ch\<rparr>) joined
     @ map (\<lambda>u. \<lparr>ev_username = u, ev_type = Leave, ev_ts = ts, ev_channel_login = Some ch\<rparr>) left
   \<and> users_table (apply_diff joined left ts ch st) = users_table st"
  by (simp add: apply_diff_def leave_all join_all)

lemma enqueue_lowercase_names:
  assumes "\<forall>u \<in> set us. u \<noteq> [] \<and> toLowerCase u = u"
  shows "set (queue (enqueue (map Some us) e)) = set (queue e) \<union> set us"
proof -
  have "{toLowerCase (or_empty v) | v. v \<in> set (map Some us) \<and> truthy v} = set us"
  proof (intro set_eqI iffI)
    fix x assume "x \<in> {toLowerCase (or_empty v) | v. v \<in> set (map Some us) \<and> truthy v}"
    then obtain u where "u \<in> set us" "x = toLowerCase u"
      by (auto simp: or_empty_def)
    with assms show "x \<in> set us" by simp
  next
    fix x assume x: "x \<in> set us"
    with assms have "x = toLowerCase (or_empty (Some x))" "truthy (Some x)" "Some x \<in> set (map Some us)"
      by (simp_all add: or_empty_def truthy_def)
    then show "x \<in> {toLowerCase (or_empty v) | v. v \<in> set (map Some us) \<and> truthy v}"
      by blast
  qed
  then show ?thesis
    by (simp add: queue_enqueue set_enqueue_names)
qed

lemma tickOne_success:
  assumes ready: "tick_ready env a"
    and fresh: "ensureFreshToken env (a\<lparr>lastPollAt := Some (now_tick env)\<rparr>) w = (None, a1, w1)"
    and fetched: "fst (fetchChatters (chatters_http env) (cfg_clientId env) (token a1)
                    (broadcasterId a1) (moderatorId a1)) = Inr next"
    and chan: "broadcasterLogin a = Some ch"
    and res: "tickOne createStore env a w = (a', w')"
  shows "a' = a1\<lparr>current := next, lastError := None\<rparr>
       \<and> current a1 = current a
       \<and> db w' = apply_diff (filter (\<lambda>u. u \<notin> set (current a)) next)
                    (filter (\<lambda>u. u \<notin> set next) (current a)) (now_tick env) ch (db w)
       \<and> enrich w' = enqueue (map Some (filter (\<lambda>u. u \<notin> set (current a)) next)) (enrich w)"
proof -
  from ensureFreshToken_keeps [OF fresh] chan
  have k: "current a1 = current a" "broadcasterLogin a1 = Some ch" "db w1 = db w" "enrich w1 = enrich w"
    by simp_all
  obtain sent where f: "fetchChatters (chatters_http env) (cfg_clientId env) (token a1)
                    (broadcasterId a1) (moderatorId a1) = (Inr next, sent)"
    using fetched by (cases "fetchChatters (chatters_http env) (cfg_clientId env) (token a1)
                    (broadcasterId a1) (moderatorId a1)") simp
  note t = tick_try_success [OF fresh f, of "now_tick env"]
  from res ready have r: "(a', w') = (case tick_try createStore env (now_tick env)
        (a\<lparr>lastPollAt := Some (now_tick env)\<rparr>) w of
          (None, a1, w1) \<Rightarrow> (a1, w1) | (Some err, a1, w1) \<Rightarrow> tick_catch env err a1 w1)"
    by (simp add: tickOne_def Let_def)
  have a': "a' = a1\<lparr>current := next, lastError := None\<rparr>"
    using r unfolding t by simp
  have db: "db w' = apply_diff (filter (\<lambda>u. u \<notin> set (current a)) next)
                    (filter (\<lambda>u. u \<notin> set next) (current a)) (now_tick env) ch (db w)"
    using r unfolding t by (simp add: k or_empty_def split: if_splits)
  have en: "enrich w' = enqueue (map Some (filter (\<lambda>u. u \<notin> set (current a)) next)) (enrich w)"
  proof (cases "filter (\<lambda>u. u \<notin> set (current a)) next = []")
    case True
    with r show ?thesis unfolding t by (simp add: k enqueue_def split: if_splits)
  next
    case False
    with r show ?thesis unfolding t by (simp add: k)
  qed
  from a' k db en show ?thesis by simp
qed

text \<open>
  C2, as amended. Take a tick of a ready tenant over the SQLite store in which the token
  check throws nothing and the fetch returns the snapshot \<open>next\<close>; let \<open>joined\<close> be
  \<open>next\<close> without the presence set and \<open>left\<close> the presence set without \<open>next\<close>. Then
  both lists are duplicate-free; the events table grows by one join event per joined
  name followed by one leave event per left name, all at the tick timestamp and on the
  tenant's channel; the sessions table grows by one open session per joined name, at
  the tick timestamp; an old session row is closed (at the tick timestamp, with the
  clamped duration) exactly when it is the latest open session of a left name, and is
  unchanged otherwise, so a left name without an open session closes nothing; the
  profile table is unchanged; the pending set grows by exactly the joined names; and
  afterwards the presence set is \<open>next\<close> and the last error is null.
\<close>

theorem successful_tick_effects:
  assumes ready: "tick_ready env a"
    and fresh: "ensureFreshToken env (a\<lparr>lastPollAt := Some (now_tick env)\<rparr>) w = (None, a1, w1)"
    and fetched: "fst (fetchChatters (chatters_http env) (cfg_clientId env) (token a1)
                    (broadcasterId a1) (moderatorId a1)) = Inr next"
    and dcur: "distinct (current a)"
    and chan: "broadcasterLogin a = Some ch"
    and j: "joined = filter (\<lambda>u. u \<notin> set (current a)) next"
    and l: "left = filter (\<lambda>u. u \<notin> set next) (current a)"
    and res: "tickOne createStore env a w = (a', w')"
  shows "current a' = next \<and> lastError a' = None
       \<and> distinct joined \<and> set joined = set next - set (current a)
       \<and> distinct left \<and> set left = set (current a) - set next
       \<and> events (db w') =
           events (db w)
           @ map (\<lambda>u. \<lparr>ev_username = u, ev_type = Join, ev_ts = now_tick env,
                        ev_channel_login = Some ch\<rparr>) joined
           @ map (\<lambda>u. \<lparr>ev_username = u, ev_type = Leave, ev_ts = now_tick env,
                        ev_channel_login = Some ch\<rparr>) left
       \<and> length (sessions (db w')) = length (sessions (db w)) + length joined
       \<and> drop (length (sessions (db w))) (sessions (db w'))
           = map (\<lambda>u. new_session u (now_tick env) ch) joined
       \<and> (\<forall>i < length (sessions (db w)).
             sessions (db w') ! i =
               (if \<exists>u \<in> set left. latest_open u ch (sessions (db w)) = Some i
                then close_row (now_tick env)
                       (session_duration (now_tick env) (joined_at (sessions (db w) ! i)))
                       (sessions (db w) ! i)
                else sessions (db w) ! i))
       \<and> users_table (db w') = users_table (db w)
       \<and> set (queue (enrich w')) = set (queue (enrich w)) \<union> set joined
       \<and> (distinct (queue (enrich w)) \<longrightarrow> distinct (queue (enrich w')))"
proof -
  from tickOne_success [OF ready fresh fetched chan res] j l
  have a': "a' = a1\<lparr>current := next, lastError := None\<rparr>"
    and db: "db w' = apply_diff joined left (now_tick env) ch (db w)"
    and en: "enrich w' = enqueue (map Some joined) (enrich w)"
    by simp_all
  from fetchChatters_normalised [OF fetched]
  have dn: "distinct next" and norm: "\<forall>u \<in> set next. u \<noteq> [] \<and> toLowerCase u = u"
    by simp_all
  have dj: "distinct joined" and dl: "distinct left"
    using dn dcur by (simp_all add: j l)
  have sj: "set joined = set next - set (current a)" and sl: "set left = set (current a) - set next"
    by (auto simp: j l)
  have disj: "set left \<inter> set joined = {}"
    using sj sl by auto
  have nj: "\<forall>u \<in> set joined. u \<noteq> [] \<and> toLowerCase u = u"
    using norm sj by auto
  note ds = diff_sessions [OF dl disj, of "now_tick env" ch "db w"]
  note de = diff_events [of joined left "now_tick env" ch "db w"]
  have q: "set (queue (enrich w')) = set (queue (enrich w)) \<union> set joined"
    unfolding en by (rule enqueue_lowercase_names [OF nj])
  have dq: "distinct (queue (enrich w)) \<longrightarrow> distinct (queue (enrich w'))"
    unfolding en by (simp add: queue_enqueue distinct_enqueue_names)
  show ?thesis
    unfolding db using a' dj dl sj sl ds de q dq by simp
qed

lemma demo_snapshot: "fst (fetchChatters demo_pages c t b m) = Inr [''alice'', ''bob'', ''carol'']"
  by (simp add: fetchChatters_def fetchChatters_loop.simps demo_pages_def next_request_def
      truthy_def norm_demo set_add_def Let_def)

lemma steady_fresh:
  "ensureFreshToken (steady_env pages) ((steady_tenant present)\<lparr>lastPollAt := Some t\<rparr>) w
     = (None, (steady_tenant present)\<lparr>lastPollAt := Some t\<rparr>, w)"
  by (simp add: steady_env_def steady_tenant_def demo_tick_env_def demo_tenant_def
      ensureFreshToken_def truthy_def truthy_num_def)

lemma steady_ready: "tick_ready (steady_env pages) (steady_tenant present)"
  by (simp add: tick_ready_def steady_env_def steady_tenant_def demo_tick_env_def demo_tenant_def
      truthy_def)

lemma steady_fields:
  "now_tick (steady_env pages) = 50000" "chatters_http (steady_env pages) = pages"
  "current (steady_tenant present) = present" "broadcasterLogin (steady_tenant present) = Some ''chan''"
  "lastError (steady_tenant present) = None"
  by (simp_all add: steady_env_def steady_tenant_def demo_tick_env_def demo_tenant_def)

text \<open>Presence \<open>alice, dan\<close>, snapshot \<open>alice, bob, carol\<close>: two joins, one leave, dan's
  session closed after 48 s.\<close>

theorem successful_tick_effects_witness:
  "tick_ready (steady_env demo_pages) (steady_tenant [''alice'', ''dan''])
   \<and> current (fst (tickOne createStore (steady_env demo_pages) (steady_tenant [''alice'', ''dan''])
        (demo_world\<lparr>db := tick_store\<rparr>))) = [''alice'', ''bob'', ''carol'']
   \<and> lastError (fst (tickOne createStore (steady_env demo_pages) (steady_tenant [''alice'', ''dan''])
        (demo_world\<lparr>db := tick_store\<rparr>))) = None
   \<and> events (db (snd (tickOne createStore (steady_env demo_pages) (steady_tenant [''alice'', ''dan''])
        (demo_world\<lparr>db := tick_store\<rparr>)))) =
       [\<lparr>ev_username = ''bob'', ev_type = Join, ev_ts = 50000, ev_channel_login = Some ''chan''\<rparr>,
        \<lparr>ev_username = ''carol'', ev_type = Join, ev_ts = 50000, ev_channel_login = Some ''chan''\<rparr>,
        \<lparr>ev_username = ''dan'', ev_type = Leave, ev_ts = 50000, ev_channel_login = Some ''chan''\<rparr>]
   \<and> drop 2 (sessions (db (snd (tickOne createStore (steady_env demo_pages)
        (steady_tenant [''alice'', ''dan'']) (demo_world\<lparr>db := tick_store\<rparr>))))) =
       [new_session ''bob'' 50000 ''chan'', new_session ''carol'' 50000 ''chan'']
   \<and> sessions (db (snd (tickOne createStore (steady_env demo_pages)
        (steady_tenant [''alice'', ''dan'']) (demo_world\<lparr>db := tick_store\<rparr>)))) ! 0 =
       new_session ''alice'' 1000 ''chan''
   \<and> sessions (db (snd (tickOne createStore (steady_env demo_pages)
        (steady_tenant [''alice'', ''dan'']) (demo_world\<lparr>db := tick_store\<rparr>)))) ! 1 =
       close_row 50000 48 (new_session ''dan'' 2000 ''chan'')
   \<and> set (queue (enrich (snd (tickOne createStore (steady_env demo_pages)
        (steady_tenant [''alice'', ''dan'']) (demo_world\<lparr>db := tick_store\<rparr>))))) = {''bob'', ''carol''}"
proof -
  let ?env = "steady_env demo_pages"
  let ?a = "steady_tenant [''alice'', ''dan'']"
  let ?w = "demo_world\<lparr>db := tick_store\<rparr>"
  let ?t = "tickOne createStore ?env ?a ?w"
  let ?S = "sessions tick_store"
  have p: "?t = (fst ?t, snd ?t)" by simp
  have f: "fst (fetchChatters (chatters_http ?env) (cfg_clientId ?env)
              (token (?a\<lparr>lastPollAt := Some (now_tick ?env)\<rparr>))
              (broadcasterId (?a\<lparr>lastPollAt := Some (now_tick ?env)\<rparr>))
              (moderatorId (?a\<lparr>lastPollAt := Some (now_tick ?env)\<rparr>))) = Inr [''alice'', ''bob'', ''carol'']"
    by (simp add: steady_fields demo_snapshot)
  have d: "distinct (current ?a)" by (simp add: steady_fields)
  have j: "[''bob'', ''carol''] = filter (\<lambda>u. u \<notin> set (current ?a)) [''alice'', ''bob'', ''carol'']"
    and l: "[''dan''] = filter (\<lambda>u. u \<notin> set [''alice'', ''bob'', ''carol'']) (current ?a)"
    by (simp_all add: steady_fields)
  have S: "?S = [new_session ''alice'' 1000 ''chan'', new_session ''dan'' 2000 ''chan'']"
    by (simp add: tick_store_def)
  have lo: "latest_open ''dan'' ''chan'' ?S = Some 1"
    by (simp add: S new_session_def open_for_def)
  have du: "session_duration 50000 2000 = 48"
    by (simp add: session_duration_def)
  note t = successful_tick_effects [OF steady_ready steady_fresh f d steady_fields(4) j l p]
  note t2 = t [THEN conjunct2, THEN conjunct2]
  note t6 = t2 [THEN conjunct2, THEN conjunct2, THEN conjunct2, THEN conjunct2]
  note t9 = t6 [THEN conjunct2, THEN conjunct2]
  note t10 = t9 [THEN conjunct2, THEN conjunct1, rule_format]
  note t12 = t9 [THEN conjunct2, THEN conjunct2, THEN conjunct2, THEN conjunct1]
  have w: "db ?w = tick_store" "enrich ?w = \<lparr>queue = [], running = False\<rparr>"
    by (simp_all add: demo_world_def)
  have c: "current (fst ?t) = [''alice'', ''bob'', ''carol'']" "lastError (fst ?t) = None"
    using t [THEN conjunct1] t [THEN conjunct2, THEN conjunct1] by simp_all
  have ev: "events (db (snd ?t)) =
       [\<lparr>ev_username = ''bob'', ev_type = Join, ev_ts = 50000, ev_channel_login = Some ''chan''\<rparr>,
        \<lparr>ev_username = ''carol'', ev_type = Join, ev_ts = 50000, ev_channel_login = Some ''chan''\<rparr>,
        \<lparr>ev_username = ''dan'', ev_type = Leave, ev_ts = 50000, ev_channel_login = Some ''chan''\<rparr>]"
    using t6 [THEN conjunct1] by (simp add: w steady_fields tick_store_def)
  have nw: "drop 2 (sessions (db (snd ?t))) =
       [new_session ''bob'' 50000 ''chan'', new_session ''carol'' 50000 ''chan'']"
    using t9 [THEN conjunct1] by (simp add: w steady_fields S numeral_2_eq_2)
  have r0: "sessions (db (snd ?t)) ! 0 = new_session ''alice'' 1000 ''chan''"
    using t10 [of 0] by (simp add: w S new_session_def open_for_def)
  have r1: "sessions (db (snd ?t)) ! 1 = close_row 50000 48 (new_session ''dan'' 2000 ''chan'')"
    using t10 [of 1]
    by (simp add: w S steady_fields new_session_def open_for_def session_duration_def)
  have q: "set (queue (enrich (snd ?t))) = {''bob'', ''carol''}"
    using t12 by (simp add: w)
  from steady_ready c ev nw r0 r1 q show ?thesis
    by simp
qed

lemma after_failed_tick_value:
  "after_failed_tick =
     ((steady_tenant [''alice'', ''bob'', ''dan''])
        \<lparr>lastPollAt := Some 3000, lastError := Some ''disk I/O error''\<rparr>,
      demo_world
        \<lparr>db := \<lparr>events =
                  [\<lparr>ev_username = ''bob'', ev_type = Leave, ev_ts = 3000, ev_channel_login = Some ''chan''\<rparr>],
                sessions = [new_session ''alice'' 1000 ''chan'',
                            close_row 3000 2 (new_session ''bob'' 1000 ''chan''),
                            new_session ''dan'' 2000 ''chan''],
                users_table = Map.empty\<rparr>,
         chattersSent :=
           [\<lparr>rq_client_id = Some ''cid'', rq_token = Some ''tok0'', rq_broadcaster_id = Some ''7'',
             rq_moderator_id = Some ''42'', rq_first = 1000, rq_after = None\<rparr>]\<rparr>)"
  by (simp add: after_failed_tick_def flaky_store_def three_open_def snapshot_tick_simps
      tick_catch_def error_text_def plain_error_def)

text \<open>
  The claim as first stated has a session closed for every left name. Take a presence
  set and a store that agree (alice, bob and dan, one open session each) and a tick
  whose leave for dan throws after the leave for bob has gone through: the presence
  set stays, bob's session is closed. The next tick, successful, with the same
  snapshot, appends a leave event for bob and for dan and closes dan's session only.
\<close>

theorem tick_leave_without_session_counterexample:
  "current (fst after_failed_tick) = [''alice'', ''bob'', ''dan'']
   \<and> sessions (db (snd after_failed_tick)) =
       [new_session ''alice'' 1000 ''chan'', close_row 3000 2 (new_session ''bob'' 1000 ''chan''),
        new_session ''dan'' 2000 ''chan'']
   \<and> tick_succeeds (snapshot_env 5000 [''alice'']) (fst after_failed_tick) (snd after_failed_tick)
   \<and> tick_snapshot (snapshot_env 5000 [''alice'']) (fst after_failed_tick) (snd after_failed_tick)
       = Some [''alice'']
   \<and> events (db (snd (tickOne createStore (snapshot_env 5000 [''alice''])
        (fst after_failed_tick) (snd after_failed_tick)))) =
       events (db (snd after_failed_tick))
       @ [\<lparr>ev_username = ''bob'', ev_type = Leave, ev_ts = 5000, ev_channel_login = Some ''chan''\<rparr>,
          \<lparr>ev_username = ''dan'', ev_type = Leave, ev_ts = 5000, ev_channel_login = Some ''chan''\<rparr>]
   \<and> sessions (db (snd (tickOne createStore (snapshot_env 5000 [''alice''])
        (fst after_failed_tick) (snd after_failed_tick)))) =
       [new_session ''alice'' 1000 ''chan'', close_row 3000 2 (new_session ''bob'' 1000 ''chan''),
        close_row 5000 3 (new_session ''dan'' 2000 ''chan'')]"
  unfolding after_failed_tick_value
  by (simp add: snapshot_tick_simps tick_snapshot_def)

lemma open_users_append [simp]: "open_users ch (xs @ ys) = open_users ch xs @ open_users ch ys"
  by (simp add: open_users_def)

lemma open_users_new: "open_users ch (map (\<lambda>u. new_session u ts ch) us) = us"
  by (induction us) (simp_all add: open_users_def new_session_def)

lemma not_open_user_iff:
  "u \<notin> set (open_users ch s) \<longleftrightarrow> (\<forall>r \<in> set s. \<not> open_for u ch r)"
  by (auto simp: open_users_def open_for_def)

lemma count_open_users_leave:
  "count_list (open_users ch (leave_sessions u ts ch s)) x =
     count_list (open_users ch s) x - (if x = u then 1 else 0)"
proof (cases "latest_open u ch s")
  case None
  then have "u \<notin> set (open_users ch s)"
    by (simp add: latest_open_None not_open_user_iff)
  with None show ?thesis
    by (simp add: leave_sessions_def)
next
  case (Some i)
  from latest_open_Some [OF Some] have i: "i < length s" and o: "open_for u ch (s ! i)"
    by simp_all
  let ?c = "close_row ts (session_duration ts (joined_at (s ! i))) (s ! i)"
  have s: "s = take i s @ s ! i # drop (Suc i) s"
    using i by (simp add: id_take_nth_drop)
  have s': "leave_sessions u ts ch s = take i s @ ?c # drop (Suc i) s"
    using Some i by (simp add: leave_sessions_def upd_conv_take_nth_drop)
  have a: "open_users ch (s ! i # rest) = u # open_users ch rest" for rest
    using o by (simp add: open_users_def open_for_def)
  have b: "open_users ch (?c # rest) = open_users ch rest" for rest
    by (simp add: open_users_def close_row_def)
  have "open_users ch s = open_users ch (take i s) @ [u] @ open_users ch (drop (Suc i) s)"
    by (subst s) (simp add: a del: append_take_drop_id)
  moreover have "open_users ch (leave_sessions u ts ch s) =
      open_users ch (take i s) @ open_users ch (drop (Suc i) s)"
    unfolding s' by (simp add: b del: append_take_drop_id)
  ultimately show ?thesis
    by simp
qed

lemma count_open_users_leave_all:
  "distinct us \<Longrightarrow>
   count_list (open_users ch (foldl (\<lambda>s u. leave_sessions u ts ch s) s us)) x =
     count_list (open_users ch s) x - (if x \<in> set us then 1 else 0)"
proof (induction us arbitrary: s)
  case Nil
  then show ?case by simp
next
  case (Cons u us)
  then have d: "distinct us" and nu: "u \<notin> set us" by simp_all
  from Cons.IH [OF d, of "leave_sessions u ts ch s"] nu show ?case
    by (auto simp: count_open_users_leave)
qed

lemma distinct_by_count: "(\<forall>x. count_list xs x \<le> 1) \<Longrightarrow> distinct xs"
proof (induction xs)
  case Nil
  then show ?case by simp
next
  case (Cons a xs)
  from Cons.prems have "count_list (a # xs) a \<le> 1" by blast
  then have "count_list xs a = 0" by simp
  then have na: "a \<notin> set xs" by (simp add: count_list_0_iff)
  have "\<forall>x. count_list xs x \<le> 1"
  proof
    fix x
    from Cons.prems have "count_list (a # xs) x \<le> 1" by blast
    then show "count_list xs x \<le> 1" by (simp split: if_splits)
  qed
  with Cons.IH na show ?case by simp
qed

lemma in_step_count:
  "in_step ch a w \<Longrightarrow>
   count_list (open_users ch (sessions (db w))) x = (if x \<in> set (current a) then 1 else 0)"
  by (simp add: in_step_def count_in_distinct)

lemma tick_try_None:
  assumes "fst (tick_try createStore env ts a w) = None"
  shows "\<exists>a1 w1 next. ensureFreshToken env a w = (None, a1, w1)
           \<and> fst (fetchChatters (chatters_http env) (cfg_clientId env) (token a1)
                    (broadcasterId a1) (moderatorId a1)) = Inr next"
proof -
  obtain e a1 w1 where ef: "ensureFreshToken env a w = (e, a1, w1)"
    by (cases "ensureFreshToken env a w")
  obtain res sent where f: "fetchChatters (chatters_http env) (cfg_clientId env) (token a1)
                    (broadcasterId a1) (moderatorId a1) = (res, sent)"
    by (cases "fetchChatters (chatters_http env) (cfg_clientId env) (token a1)
                    (broadcasterId a1) (moderatorId a1)")
  from assms ef have e: "e = None"
    by (cases e) (simp_all add: tick_try_def)
  from assms ef f e have "\<exists>next. res = Inr next"
    by (cases res) (simp_all add: tick_try_def)
  with ef f e show ?thesis by auto
qed

lemma count_open_users_diff:
  assumes dl: "distinct left"
  shows "count_list (open_users ch (sessions (apply_diff joined left ts ch st))) x =
     count_list (open_users ch (sessions st)) x + count_list joined x
       - (if x \<in> set left then 1 else 0)"
  by (simp add: apply_diff_def leave_all join_all count_open_users_leave_all [OF dl] open_users_new)

lemma tick_keeps_in_step:
  assumes inv: "in_step ch a w"
    and ok: "tick_succeeds env a w"
    and res: "tickOne createStore env a w = (a', w')"
  shows "in_step ch a' w' \<and> tick_snapshot env a w = Some (current a')"
proof -
  from ok have ready: "tick_ready env a"
    and none: "fst (tick_try createStore env (now_tick env) (a\<lparr>lastPollAt := Some (now_tick env)\<rparr>) w) = None"
    by (simp_all add: tick_succeeds_def)
  from tick_try_None [OF none] obtain a1 w1 nxt
    where fresh: "ensureFreshToken env (a\<lparr>lastPollAt := Some (now_tick env)\<rparr>) w = (None, a1, w1)"
      and fetched: "fst (fetchChatters (chatters_http env) (cfg_clientId env) (token a1)
                    (broadcasterId a1) (moderatorId a1)) = Inr nxt"
    by blast
  from inv have chan: "broadcasterLogin a = Some ch" and dcur: "distinct (current a)"
    by (simp_all add: in_step_def)
  let ?joined = "filter (\<lambda>u. u \<notin> set (current a)) nxt"
  let ?left = "filter (\<lambda>u. u \<notin> set nxt) (current a)"
  from tickOne_success [OF ready fresh fetched chan res]
  have a': "a' = a1\<lparr>current := nxt, lastError := None\<rparr>"
    and db: "db w' = apply_diff ?joined ?left (now_tick env) ch (db w)"
    by simp_all
  from ensureFreshToken_keeps [OF fresh] chan have chan': "broadcasterLogin a' = Some ch"
    by (simp add: a')
  from fetchChatters_normalised [OF fetched] have dn: "distinct nxt" by simp
  have dj: "distinct ?joined" and dl: "distinct ?left"
    using dn dcur by simp_all
  have cnt: "count_list (open_users ch (sessions (db w'))) x = (if x \<in> set nxt then 1 else 0)" for x
    unfolding db count_open_users_diff [OF dl]
    by (simp add: in_step_count [OF inv] count_in_distinct [OF dj])
  have "\<forall>x. count_list (open_users ch (sessions (db w'))) x \<le> 1"
    by (simp add: cnt)
  then have d': "distinct (open_users ch (sessions (db w')))"
    by (rule distinct_by_count)
  have s': "set (open_users ch (sessions (db w'))) = set nxt"
  proof (intro set_eqI)
    fix x
    have "x \<in> set (open_users ch (sessions (db w'))) \<longleftrightarrow>
        count_list (open_users ch (sessions (db w'))) x \<noteq> 0"
      by (simp add: count_list_0_iff)
    then show "x \<in> set (open_users ch (sessions (db w'))) \<longleftrightarrow> x \<in> set nxt"
      by (simp add: cnt)
  qed
  have snap: "tick_snapshot env a w = Some (current a')"
    using fresh fetched by (simp add: tick_snapshot_def a')
  from chan' dn d' s' snap show ?thesis
    by (simp add: in_step_def a')
qed

lemma in_step_start:
  assumes "open_users ch (sessions (db w)) = []"
    and "current a = getOpenSet ch (db w)"
    and "broadcasterLogin a = Some ch"
  shows "in_step ch a w"
  using assms by (simp add: in_step_def getOpenSet_def)

lemma open_users_new_other:
  "c \<noteq> ch \<Longrightarrow> open_users ch (map (\<lambda>u. new_session u ts c) us) = []"
  by (induction us) (simp_all add: open_users_def new_session_def)

lemma open_users_leave_other:
  assumes "c \<noteq> ch"
  shows "open_users ch (leave_sessions u ts c s) = open_users ch s"
proof (cases "latest_open u c s")
  case None
  then show ?thesis
    by (simp add: leave_sessions_def)
next
  case (Some i)
  from latest_open_Some [OF Some] have i: "i < length s" and o: "open_for u c (s ! i)"
    by simp_all
  let ?c = "close_row ts (session_duration ts (joined_at (s ! i))) (s ! i)"
  have s: "s = take i s @ s ! i # drop (Suc i) s"
    using i by (simp add: id_take_nth_drop)
  have s': "leave_sessions u ts c s = take i s @ ?c # drop (Suc i) s"
    using Some i by (simp add: leave_sessions_def upd_conv_take_nth_drop)
  have a: "open_users ch (s ! i # rest) = open_users ch rest" for rest
    using o assms by (simp add: open_users_def open_for_def)
  have b: "open_users ch (?c # rest) = open_users ch rest" for rest
    by (simp add: open_users_def close_row_def)
  have "open_users ch s = open_users ch (take i s) @ open_users ch (drop (Suc i) s)"
    by (subst s) (simp add: a del: append_take_drop_id)
  moreover have "open_users ch (leave_sessions u ts c s) =
      open_users ch (take i s) @ open_users ch (drop (Suc i) s)"
    unfolding s' by (simp add: b del: append_take_drop_id)
  ultimately show ?thesis
    by simp
qed

lemma open_users_leave_all_other:
  "c \<noteq> ch \<Longrightarrow> open_users ch (foldl (\<lambda>s u. leave_sessions u ts c s) s us) = open_users ch s"
  by (induction us arbitrary: s) (simp_all add: open_users_leave_other)

text \<open>The writes of a tick for one channel leave the open sessions of every other
  channel as they are.\<close>

lemma open_users_diff_other:
  "c \<noteq> ch \<Longrightarrow>
   open_users ch (sessions (apply_diff joined left ts c st)) = open_users ch (sessions st)"
  by (simp add: apply_diff_def leave_all join_all open_users_leave_all_other open_users_new_other)

lemma tick_try_db:
  assumes "tick_try createStore env ts a w = (e, a1, w1)"
  shows "broadcasterLogin a1 = broadcasterLogin a
       \<and> (db w1 = db w
          \<or> (\<exists>joined left. db w1 = apply_diff joined left ts (or_empty (broadcasterLogin a)) (db w)))"
proof -
  obtain e0 af wf where ef: "ensureFreshToken env a w = (e0, af, wf)"
    by (cases "ensureFreshToken env a w")
  note k = ensureFreshToken_keeps [OF ef]
  obtain res sent where f: "fetchChatters (chatters_http env) (cfg_clientId env) (token af)
                    (broadcasterId af) (moderatorId af) = (res, sent)"
    by (cases "fetchChatters (chatters_http env) (cfg_clientId env) (token af)
                    (broadcasterId af) (moderatorId af)")
  show ?thesis
  proof (cases e0)
    case (Some x)
    with assms ef have "a1 = af" "w1 = wf"
      by (simp_all add: tick_try_def)
    with k show ?thesis by simp
  next
    case None
    show ?thesis
    proof (cases res)
      case (Inl x)
      with assms ef f None have "a1 = af" "w1 = wf\<lparr>chattersSent := chattersSent wf @ sent\<rparr>"
        by (simp_all add: tick_try_def)
      with k show ?thesis by simp
    next
      case (Inr nxt)
      from ef None have fresh: "ensureFreshToken env a w = (None, af, wf)"
        by simp
      from f Inr have fetched: "fetchChatters (chatters_http env) (cfg_clientId env) (token af)
                    (broadcasterId af) (moderatorId af) = (Inr nxt, sent)"
        by simp
      note t = tick_try_success [OF fresh fetched, of ts]
      from assms have a1: "a1 = af\<lparr>current := nxt, lastError := None\<rparr>"
        unfolding t by simp
      from assms have "db w1 = apply_diff (filter (\<lambda>u. u \<notin> set (current af)) nxt)
                       (filter (\<lambda>u. u \<notin> set nxt) (current af)) ts (or_empty (broadcasterLogin af)) (db wf)"
        unfolding t by (auto split: if_splits)
      with a1 k show ?thesis by auto
    qed
  qed
qed

lemma tick_catch_keeps:
  assumes "tick_catch env err a w = (a', w')"
  shows "broadcasterLogin a' = broadcasterLogin a \<and> db w' = db w"
proof -
  obtain e2 a2 w2 where rx: "refresh_exchange env (now_recovered env) a w = (e2, a2, w2)"
    by (cases "refresh_exchange env (now_recovered env) a w")
  note rk = refresh_exchange_keeps [OF rx]
  from assms rx rk show ?thesis
    by (cases e2) (auto simp: tick_catch_def split: if_splits)
qed

text \<open>A tick of a tenant of another channel, successful or not, leaves the open
  sessions of the channel as they are.\<close>

lemma tickOne_other_channel:
  assumes other: "broadcasterLogin b \<noteq> Some ch"
    and res: "tickOne createStore env b w = (b', w')"
  shows "open_users ch (sessions (db w')) = open_users ch (sessions (db w))
       \<and> broadcasterLogin b' = broadcasterLogin b"
proof (cases "tick_ready env b")
  case False
  with res show ?thesis
    by (simp add: tickOne_def)
next
  case True
  let ?b0 = "b\<lparr>lastPollAt := Some (now_tick env)\<rparr>"
  obtain e a1 w1 where t: "tick_try createStore env (now_tick env) ?b0 w = (e, a1, w1)"
    by (cases "tick_try createStore env (now_tick env) ?b0 w")
  from tick_try_db [OF t] have l1: "broadcasterLogin a1 = broadcasterLogin b"
    and d1: "db w1 = db w
          \<or> (\<exists>joined left. db w1 =
                apply_diff joined left (now_tick env) (or_empty (broadcasterLogin b)) (db w))"
    by simp_all
  from True have "truthy (broadcasterLogin b)"
    by (simp add: tick_ready_def)
  with other have ne: "or_empty (broadcasterLogin b) \<noteq> ch"
    by (cases "broadcasterLogin b") (auto simp: or_empty_def truthy_def)
  from d1 have o1: "open_users ch (sessions (db w1)) = open_users ch (sessions (db w))"
    using open_users_diff_other [OF ne] by auto
  show ?thesis
  proof (cases e)
    case None
    with res True t have "b' = a1" "w' = w1"
      by (simp_all add: tickOne_def Let_def)
    with l1 o1 show ?thesis by simp
  next
    case (Some err)
    with res True t have "tick_catch env err a1 w1 = (b', w')"
      by (simp add: tickOne_def Let_def)
    from tick_catch_keeps [OF this] l1 o1 show ?thesis by simp
  qed
qed

lemma tickAll_from_others:
  "\<forall>b \<in> set bs. broadcasterLogin b \<noteq> Some ch \<Longrightarrow>
   tickAll_from createStore envs i bs w = (bs', w') \<Longrightarrow>
   open_users ch (sessions (db w')) = open_users ch (sessions (db w))
   \<and> length bs' = length bs \<and> (\<forall>b \<in> set bs'. broadcasterLogin b \<noteq> Some ch)"
proof (induction bs arbitrary: i w bs' w')
  case Nil
  then show ?case by simp
next
  case (Cons b bs)
  obtain b1 w1 where t: "tickOne createStore (envs i) b w = (b1, w1)"
    by (cases "tickOne createStore (envs i) b w")
  obtain bs1 w2 where r: "tickAll_from createStore envs (i + 1) bs w1 = (bs1, w2)"
    by (cases "tickAll_from createStore envs (i + 1) bs w1")
  from Cons.prems(2) t r have e: "bs' = b1 # bs1" "w' = w2"
    by simp_all
  from Cons.prems(1) have ob: "broadcasterLogin b \<noteq> Some ch"
    and obs: "\<forall>b \<in> set bs. broadcasterLogin b \<noteq> Some ch"
    by simp_all
  from tickOne_other_channel [OF ob t] Cons.IH [OF obs r] ob e show ?case
    by simp
qed

lemma tickAll_from_append:
  "tickAll_from api envs i (xs @ ys) w =
     (case tickAll_from api envs i xs w of
        (xs', w1) \<Rightarrow>
          (case tickAll_from api envs (i + length xs) ys w1 of
             (ys', w2) \<Rightarrow> (xs' @ ys', w2)))"
  by (induction xs arbitrary: i w) (simp_all split: prod.splits)

lemma round_keeps_in_step:
  assumes k: "k < length ts"
    and sole: "\<forall>b \<in> set (take k ts @ drop (Suc k) ts). broadcasterLogin b \<noteq> Some ch"
    and inv: "in_step ch (ts ! k) w"
    and ok: "tick_succeeds (envs k) (ts ! k) (before_tick envs k ts w)"
    and res: "tickAll createStore envs ts w = (ts', w')"
  shows "k < length ts'
       \<and> (\<forall>b \<in> set (take k ts' @ drop (Suc k) ts'). broadcasterLogin b \<noteq> Some ch)
       \<and> in_step ch (ts' ! k) w'
       \<and> tick_snapshot (envs k) (ts ! k) (before_tick envs k ts w) = Some (current (ts' ! k))"
proof -
  let ?pre = "take k ts" and ?a = "ts ! k" and ?post = "drop (Suc k) ts"
  have lp: "length ?pre = k"
    using k by simp
  obtain pre' w1 where p: "tickAll_from createStore envs 0 ?pre w = (pre', w1)"
    by (cases "tickAll_from createStore envs 0 ?pre w")
  obtain a' w2 where t: "tickOne createStore (envs k) ?a w1 = (a', w2)"
    by (cases "tickOne createStore (envs k) ?a w1")
  obtain post' w3 where q: "tickAll_from createStore envs (k + 1) ?post w2 = (post', w3)"
    by (cases "tickAll_from createStore envs (k + 1) ?post w2")
  have "tickAll_from createStore envs 0 (?pre @ ?a # ?post) w = (pre' @ a' # post', w3)"
    using p t q lp by (simp add: tickAll_from_append)
  moreover have "?pre @ ?a # ?post = ts"
    using k by (simp add: id_take_nth_drop [symmetric])
  ultimately have r: "ts' = pre' @ a' # post'" "w' = w3"
    using res by (simp_all add: tickAll_def)
  have bt: "before_tick envs k ts w = w1"
    using p by (simp add: before_tick_def tickAll_def)
  from sole have sp: "\<forall>b \<in> set ?pre. broadcasterLogin b \<noteq> Some ch"
    and sq: "\<forall>b \<in> set ?post. broadcasterLogin b \<noteq> Some ch"
    by simp_all
  from tickAll_from_others [OF sp p] lp
  have o1: "open_users ch (sessions (db w1)) = open_users ch (sessions (db w))"
    and l1: "length pre' = k" and s1: "\<forall>b \<in> set pre'. broadcasterLogin b \<noteq> Some ch"
    by simp_all
  from inv o1 have inv1: "in_step ch ?a w1"
    by (simp add: in_step_def)
  from ok bt have ok1: "tick_succeeds (envs k) ?a w1"
    by simp
  from tick_keeps_in_step [OF inv1 ok1 t]
  have inv2: "in_step ch a' w2" and snap: "tick_snapshot (envs k) ?a w1 = Some (current a')"
    by simp_all
  from tickAll_from_others [OF sq q]
  have o3: "open_users ch (sessions (db w3)) = open_users ch (sessions (db w2))"
    and s3: "\<forall>b \<in> set post'. broadcasterLogin b \<noteq> Some ch"
    by simp_all
  from inv2 o3 have inv3: "in_step ch a' w3"
    by (simp add: in_step_def)
  have nth: "ts' ! k = a'" and tk: "take k ts' = pre'" "drop (Suc k) ts' = post'"
    and len: "k < length ts'"
    using r l1 by (simp_all add: nth_append)
  from s1 s3 have "\<forall>b \<in> set (take k ts' @ drop (Suc k) ts'). broadcasterLogin b \<noteq> Some ch"
    unfolding tk by auto
  with len inv3 snap show ?thesis
    by (simp add: nth r(2) bt)
qed

lemma rounds_keep_in_step:
  "k < length ts \<Longrightarrow>
   \<forall>b \<in> set (take k ts @ drop (Suc k) ts). broadcasterLogin b \<noteq> Some ch \<Longrightarrow>
   in_step ch (ts ! k) w \<Longrightarrow> succeeds_in_rounds k (rounds @ later) ts w \<Longrightarrow>
   run_rounds rounds ts w = (tsk, wk) \<Longrightarrow>
   k < length tsk
   \<and> (\<forall>b \<in> set (take k tsk @ drop (Suc k) tsk). broadcasterLogin b \<noteq> Some ch)
   \<and> in_step ch (tsk ! k) wk \<and> succeeds_in_rounds k later tsk wk"
proof (induction rounds arbitrary: ts w)
  case Nil
  then show ?case by simp
next
  case (Cons envs rounds)
  obtain ts1 w1 where t: "tickAll createStore envs ts w = (ts1, w1)"
    by (cases "tickAll createStore envs ts w")
  from Cons.prems(4) t
  have ok: "tick_succeeds (envs k) (ts ! k) (before_tick envs k ts w)"
    and rest: "succeeds_in_rounds k (rounds @ later) ts1 w1"
    by simp_all
  from round_keeps_in_step [OF Cons.prems(1) Cons.prems(2) Cons.prems(3) ok t]
  have k1: "k < length ts1"
    and s1: "\<forall>b \<in> set (take k ts1 @ drop (Suc k) ts1). broadcasterLogin b \<noteq> Some ch"
    and inv1: "in_step ch (ts1 ! k) w1"
    by simp_all
  from Cons.prems(5) t have "run_rounds rounds ts1 w1 = (tsk, wk)"
    by simp
  from Cons.IH [OF k1 s1 inv1 rest this] show ?case .
qed

text \<open>
  C1, as amended. Take a registry of tenants in which the \<open>k\<close>-th tenant tracks the
  channel \<open>ch\<close> and no other tenant does. Start from a store without open sessions for
  \<open>ch\<close>, the presence set of the \<open>k\<close>-th tenant being the store's open set. Run any
  number of rounds of \<open>tickAll\<close> and one more, the tick of the \<open>k\<close>-th tenant successful
  in each of them, whatever the ticks of the other tenants do. In the last round that
  tick fetched a duplicate-free snapshot, and after the round the usernames with an
  open session on \<open>ch\<close> are exactly those of the snapshot, each with one open session
  only; the presence set of the tenant is the snapshot.
\<close>

theorem open_sessions_follow_snapshots:
  assumes k: "k < length tenants"
    and chan: "broadcasterLogin (tenants ! k) = Some ch"
    and sole: "\<forall>b \<in> set (take k tenants @ drop (Suc k) tenants). broadcasterLogin b \<noteq> Some ch"
    and start: "open_users ch (sessions (db w)) = []"
    and cur: "current (tenants ! k) = getOpenSet ch (db w)"
    and ok: "succeeds_in_rounds k (rounds @ [envs]) tenants w"
    and before: "run_rounds rounds tenants w = (tenants_k, wk)"
    and last: "tickAll createStore envs tenants_k wk = (tenants', w')"
  shows "\<exists>snapshot.
             tick_snapshot (envs k) (tenants_k ! k) (before_tick envs k tenants_k wk) = Some snapshot
           \<and> distinct snapshot
           \<and> set (open_users ch (sessions (db w'))) = set snapshot
           \<and> distinct (open_users ch (sessions (db w')))
           \<and> length (open_users ch (sessions (db w'))) = length snapshot
           \<and> current (tenants' ! k) = snapshot"
proof -
  from in_step_start [OF start cur chan] have inv: "in_step ch (tenants ! k) w" .
  from rounds_keep_in_step [OF k sole inv ok before]
  have kk: "k < length tenants_k"
    and sk: "\<forall>b \<in> set (take k tenants_k @ drop (Suc k) tenants_k). broadcasterLogin b \<noteq> Some ch"
    and invk: "in_step ch (tenants_k ! k) wk"
    and okk: "tick_succeeds (envs k) (tenants_k ! k) (before_tick envs k tenants_k wk)"
    by simp_all
  from round_keeps_in_step [OF kk sk invk okk last]
  have inv': "in_step ch (tenants' ! k) w'"
    and snap: "tick_snapshot (envs k) (tenants_k ! k) (before_tick envs k tenants_k wk)
                 = Some (current (tenants' ! k))"
    by simp_all
  from inv' have d: "distinct (current (tenants' ! k))" "distinct (open_users ch (sessions (db w')))"
    and s: "set (open_users ch (sessions (db w'))) = set (current (tenants' ! k))"
    by (simp_all add: in_step_def)
  from d s have "length (open_users ch (sessions (db w'))) = length (current (tenants' ! k))"
    by (metis distinct_card)
  with snap d s show ?thesis
    by simp
qed

lemmas round_simps =
  tickAll_def before_tick_def first_round_def second_round_def shared_round_def other_tenant_def
  snapshot_tick_simps

lemma first_round_value:
  "after_first_round =
     ([other_tenant\<lparr>current := [''alice''], lastPollAt := Some 1000\<rparr>,
       (steady_tenant [''alice'', ''bob''])\<lparr>lastPollAt := Some 1000\<rparr>],
      demo_world
        \<lparr>db := \<lparr>events =
                  [\<lparr>ev_username = ''alice'', ev_type = Join, ev_ts = 1000, ev_channel_login = Some ''other''\<rparr>,
                   \<lparr>ev_username = ''alice'', ev_type = Join, ev_ts = 1000, ev_channel_login = Some ''chan''\<rparr>,
                   \<lparr>ev_username = ''bob'', ev_type = Join, ev_ts = 1000, ev_channel_login = Some ''chan''\<rparr>],
                sessions = [new_session ''alice'' 1000 ''other'', new_session ''alice'' 1000 ''chan'',
                            new_session ''bob'' 1000 ''chan''],
                users_table = Map.empty\<rparr>,
         enrich := \<lparr>queue = [''alice'', ''bob''], running = False\<rparr>,
         enrichToken := Some ''tok0'',
         chattersSent :=
           [\<lparr>rq_client_id = Some ''cid'', rq_token = Some ''tok0'', rq_broadcaster_id = Some ''8'',
             rq_moderator_id = Some ''42'', rq_first = 1000, rq_after = None\<rparr>,
            \<lparr>rq_client_id = Some ''cid'', rq_token = Some ''tok0'', rq_broadcaster_id = Some ''7'',
             rq_moderator_id = Some ''42'', rq_first = 1000, rq_after = None\<rparr>]\<rparr>)"
  by (simp add: after_first_round_def round_simps)

lemma second_round_sessions:
  "sessions (db (snd (tickAll createStore second_round (fst after_first_round) (snd after_first_round)))) =
     [close_row 3000 2 (new_session ''alice'' 1000 ''other''), new_session ''alice'' 1000 ''chan'',
      close_row 3000 2 (new_session ''bob'' 1000 ''chan'')]"
  unfolding first_round_value
  by (simp add: round_simps)

lemma two_rounds_ok:
  "succeeds_in_rounds 1 [first_round, second_round] [other_tenant, steady_tenant []] demo_world"
proof -
  have "tick_succeeds (first_round 1) ([other_tenant, steady_tenant []] ! 1)
          (before_tick first_round 1 [other_tenant, steady_tenant []] demo_world)"
    by (simp add: round_simps)
  moreover have "tick_succeeds (second_round 1) (fst after_first_round ! 1)
          (before_tick second_round 1 (fst after_first_round) (snd after_first_round))"
    unfolding first_round_value by (simp add: round_simps)
  ultimately show ?thesis
    by (simp add: after_first_round_def case_prod_beta)
qed

lemma second_round_snapshot:
  "tick_snapshot (second_round 1) (fst after_first_round ! 1)
      (before_tick second_round 1 (fst after_first_round) (snd after_first_round)) = Some [''alice'']"
  unfolding first_round_value
  by (simp add: tick_snapshot_def round_simps)

text \<open>A tenant of \<open>other\<close> and one of \<open>chan\<close>, two rounds: afterwards alice alone is open
  on \<open>chan\<close>, bob's session there is closed with duration 2, and so is the session of
  alice on \<open>other\<close>.\<close>

theorem open_sessions_follow_snapshots_witness:
  "open_users ''chan'' (sessions (db demo_world)) = []
   \<and> current ([other_tenant, steady_tenant []] ! 1) = getOpenSet ''chan'' (db demo_world)
   \<and> broadcasterLogin ([other_tenant, steady_tenant []] ! 1) = Some ''chan''
   \<and> broadcasterLogin other_tenant = Some ''other''
   \<and> succeeds_in_rounds 1 [first_round, second_round] [other_tenant, steady_tenant []] demo_world
   \<and> tick_snapshot (second_round 1) (fst after_first_round ! 1)
        (before_tick second_round 1 (fst after_first_round) (snd after_first_round)) = Some [''alice'']
   \<and> set (open_users ''chan'' (sessions (db (snd (tickAll createStore second_round
        (fst after_first_round) (snd after_first_round)))))) = {''alice''}
   \<and> distinct (open_users ''chan'' (sessions (db (snd (tickAll createStore second_round
        (fst after_first_round) (snd after_first_round))))))
   \<and> sessions (db (snd (tickAll createStore second_round
        (fst after_first_round) (snd after_first_round)))) =
       [close_row 3000 2 (new_session ''alice'' 1000 ''other''), new_session ''alice'' 1000 ''chan'',
        close_row 3000 2 (new_session ''bob'' 1000 ''chan'')]"
proof -
  let ?ts = "[other_tenant, steady_tenant []]"
  let ?t = "tickAll createStore second_round (fst after_first_round) (snd after_first_round)"
  have k: "1 < length ?ts"
    by simp
  have chan: "broadcasterLogin (?ts ! 1) = Some ''chan''"
    by (simp add: steady_tenant_def demo_tenant_def)
  have oth: "broadcasterLogin other_tenant = Some ''other''"
    by (simp add: other_tenant_def)
  then have sole: "\<forall>b \<in> set (take 1 ?ts @ drop (Suc 1) ?ts). broadcasterLogin b \<noteq> Some ''chan''"
    by simp
  have start: "open_users ''chan'' (sessions (db demo_world)) = []"
    by (simp add: demo_world_def empty_store_def open_users_def)
  have cur: "current (?ts ! 1) = getOpenSet ''chan'' (db demo_world)"
    by (simp add: steady_tenant_def demo_tenant_def getOpenSet_def demo_world_def empty_store_def
          open_users_def)
  have ok: "succeeds_in_rounds 1 ([first_round] @ [second_round]) ?ts demo_world"
    using two_rounds_ok by simp
  have before: "run_rounds [first_round] ?ts demo_world = (fst after_first_round, snd after_first_round)"
    by (simp add: after_first_round_def case_prod_beta)
  have last: "?t = (fst ?t, snd ?t)"
    by simp
  from open_sessions_follow_snapshots [OF k chan sole start cur ok before last] second_round_snapshot
  have "set (open_users ''chan'' (sessions (db (snd ?t)))) = {''alice''}
      \<and> distinct (open_users ''chan'' (sessions (db (snd ?t))))"
    by auto
  with start cur chan oth two_rounds_ok second_round_snapshot second_round_sessions show ?thesis
    by simp
qed

lemma shared_round_value:
  "after_shared_round =
     ([(steady_tenant [''alice''])\<lparr>lastPollAt := Some 1000\<rparr>,
       (steady_tenant [''alice''])\<lparr>lastPollAt := Some 1000\<rparr>],
      demo_world
        \<lparr>db := \<lparr>events =
                  [\<lparr>ev_username = ''alice'', ev_type = Join, ev_ts = 1000, ev_channel_login = Some ''chan''\<rparr>,
                   \<lparr>ev_username = ''alice'', ev_type = Join, ev_ts = 1000, ev_channel_login = Some ''chan''\<rparr>],
                sessions = [new_session ''alice'' 1000 ''chan'', new_session ''alice'' 1000 ''chan''],
                users_table = Map.empty\<rparr>,
         enrich := \<lparr>queue = [''alice''], running = False\<rparr>,
         enrichToken := Some ''tok0'',
         chattersSent :=
           [\<lparr>rq_client_id = Some ''cid'', rq_token = Some ''tok0'', rq_broadcaster_id = Some ''7'',
             rq_moderator_id = Some ''42'', rq_first = 1000, rq_after = None\<rparr>,
            \<lparr>rq_client_id = Some ''cid'', rq_token = Some ''tok0'', rq_broadcaster_id = Some ''7'',
             rq_moderator_id = Some ''42'', rq_first = 1000, rq_after = None\<rparr>]\<rparr>)"
  by (simp add: after_shared_round_def round_simps)

text \<open>
  The claim as first stated holds for every tenant. Two tenants that track the same
  channel both start from the empty open set of the store and both see \<open>alice\<close> in a
  successful tick: after the round \<open>alice\<close> has two open sessions on the channel. When
  the first tenant then sees an empty chat, its successful tick closes one of them, and
  \<open>alice\<close> is still open on the channel although the snapshot of that tick is empty.
\<close>

theorem shared_channel_counterexample:
  "open_users ''chan'' (sessions (db demo_world)) = []
   \<and> current (steady_tenant []) = getOpenSet ''chan'' (db demo_world)
   \<and> broadcasterLogin (steady_tenant []) = Some ''chan''
   \<and> succeeds_in_rounds 0 [shared_round] [steady_tenant [], steady_tenant []] demo_world
   \<and> succeeds_in_rounds 1 [shared_round] [steady_tenant [], steady_tenant []] demo_world
   \<and> tick_snapshot (shared_round 1) (steady_tenant [])
        (before_tick shared_round 1 [steady_tenant [], steady_tenant []] demo_world) = Some [''alice'']
   \<and> open_users ''chan'' (sessions (db (snd after_shared_round))) = [''alice'', ''alice'']
   \<and> tick_succeeds (snapshot_env 3000 []) (fst after_shared_round ! 0) (snd after_shared_round)
   \<and> tick_snapshot (snapshot_env 3000 []) (fst after_shared_round ! 0) (snd after_shared_round)
       = Some []
   \<and> open_users ''chan'' (sessions (db (snd (tickOne createStore (snapshot_env 3000 [])
        (fst after_shared_round ! 0) (snd after_shared_round))))) = [''alice'']"
proof -
  have a: "open_users ''chan'' (sessions (db demo_world)) = []"
    "current (steady_tenant []) = getOpenSet ''chan'' (db demo_world)"
    "broadcasterLogin (steady_tenant []) = Some ''chan''"
    by (simp_all add: steady_tenant_def demo_tenant_def getOpenSet_def demo_world_def empty_store_def
          open_users_def)
  have b: "succeeds_in_rounds 0 [shared_round] [steady_tenant [], steady_tenant []] demo_world"
    "succeeds_in_rounds 1 [shared_round] [steady_tenant [], steady_tenant []] demo_world"
    by (simp_all add: case_prod_beta round_simps)
  have c: "tick_snapshot (shared_round 1) (steady_tenant [])
        (before_tick shared_round 1 [steady_tenant [], steady_tenant []] demo_world) = Some [''alice'']"
    by (simp add: tick_snapshot_def round_simps)
  have d: "open_users ''chan'' (sessions (db (snd after_shared_round))) = [''alice'', ''alice'']"
    unfolding shared_round_value by (simp add: open_users_def new_session_def)
  have e: "tick_succeeds (snapshot_env 3000 []) (fst after_shared_round ! 0) (snd after_shared_round)"
    "tick_snapshot (snapshot_env 3000 []) (fst after_shared_round ! 0) (snd after_shared_round)
       = Some []"
    unfolding shared_round_value by (simp_all add: tick_snapshot_def round_simps)
  have f: "open_users ''chan'' (sessions (db (snd (tickOne createStore (snapshot_env 3000 [])
        (fst after_shared_round ! 0) (snd after_shared_round))))) = [''alice'']"
    unfolding shared_round_value by (simp add: round_simps open_users_def)
  from a b c d e f show ?thesis
    by simp
qed

end
